theory Spec2Isabelle
  imports Main "HOL-Library.Word" "HOL-Library.While_Combinator"
begin

section \<open>Text representation\<close>

text \<open>
  A TypeScript string is a sequence of 16-bit code units; every index, column and
  length of the detector counts code units.
\<close>

type_synonym jsstring = "16 word list"

text \<open>
  \<^verbatim>\<open>String.prototype.charCodeAt\<close>: the code unit at an index, \<open>None\<close> standing for
  the NaN that an index out of range gives (every comparison with NaN is false).
\<close>

definition charCodeAt :: "jsstring \<Rightarrow> nat \<Rightarrow> nat option" where
  "charCodeAt txt pos = (if pos < length txt then Some (unat (txt ! pos)) else None)"

text \<open>
  \<^verbatim>\<open>String.prototype.codePointAt\<close>: \<open>None\<close> is \<^verbatim>\<open>undefined\<close>. A high surrogate
  followed by a low surrogate is decoded as one supplementary code point, anything else
  is the code unit itself.
\<close>

definition codePointAt :: "jsstring \<Rightarrow> nat \<Rightarrow> nat option" where
  "codePointAt txt pos =
     (if length txt \<le> pos then None
      else let first = unat (txt ! pos) in
        if first < 0xD800 \<or> 0xDBFF < first \<or> pos + 1 = length txt then Some first
        else let second = unat (txt ! (pos + 1)) in
          if second < 0xDC00 \<or> 0xDFFF < second then Some first
          else Some ((first - 0xD800) * 0x400 + (second - 0xDC00) + 0x10000))"

text \<open>
  \<^verbatim>\<open>String.fromCodePoint\<close> for one code point. The detector only passes code points
  up to 0x10FFFF (table ranges and results of \<open>codePointAt\<close>), where no RangeError
  is raised.
\<close>

definition fromCodePoint :: "nat \<Rightarrow> jsstring" where
  "fromCodePoint cp =
     (if cp \<le> 0xFFFF then [of_nat cp]
      else [of_nat (0xD800 + (cp - 0x10000) div 0x400),
            of_nat (0xDC00 + (cp - 0x10000) mod 0x400)])"

text \<open>
  \<^verbatim>\<open>text.lastIndexOf(c, position)\<close> for a one-unit search string: the greatest index
  not above the position that holds \<open>c\<close>, or \<open>-1\<close>.
\<close>

fun lastIndexOfUpTo :: "jsstring \<Rightarrow> 16 word \<Rightarrow> nat \<Rightarrow> int" where
  "lastIndexOfUpTo txt c 0 = (if 0 < length txt \<and> txt ! 0 = c then 0 else - 1)"
| "lastIndexOfUpTo txt c (Suc k) =
     (if Suc k < length txt \<and> txt ! Suc k = c then int (Suc k) else lastIndexOfUpTo txt c k)"

definition lastIndexOf :: "jsstring \<Rightarrow> 16 word \<Rightarrow> int \<Rightarrow> int" where
  "lastIndexOf txt c position = lastIndexOfUpTo txt c (nat position)"

text \<open>Number formatting: \<^verbatim>\<open>n.toString(16).toUpperCase()\<close>, \<^verbatim>\<open>padStart(4, '0')\<close> and the decimal
  form used inside template strings.\<close>

definition hexDigit :: "nat \<Rightarrow> char" where
  "hexDigit d = ''0123456789ABCDEF'' ! d"

fun toHexUpper :: "nat \<Rightarrow> string" where
  "toHexUpper n = (if n < 16 then [hexDigit n] else toHexUpper (n div 16) @ [hexDigit (n mod 16)])"

declare toHexUpper.simps [simp del]

definition padStart4 :: "string \<Rightarrow> string" where
  "padStart4 s = replicate (4 - length s) (CHR ''0'') @ s"

fun toDecimal :: "nat \<Rightarrow> string" where
  "toDecimal n = (if n < 10 then [hexDigit n] else toDecimal (n div 10) @ [hexDigit (n mod 10)])"

declare toDecimal.simps [simp del]

section \<open>hiddenCharacters.ts: the category tables\<close>

definition zeroWidthChars :: "jsstring list" where
  "zeroWidthChars = [[0x200B], [0x200C], [0x200D], [0xFEFF]]"

definition ZERO_WIDTH_CATEGORY :: string where
  "ZERO_WIDTH_CATEGORY = ''Zero-Width''"

definition ZERO_WIDTH_MESSAGE :: string where
  "ZERO_WIDTH_MESSAGE = ''Zero-width character; invisible but can affect text processing.''"

definition bidiControlChars :: "jsstring list" where
  "bidiControlChars =
     [[0x202A], [0x202B], [0x202D], [0x202E], [0x2066], [0x2067], [0x2068], [0x2069], [0x202C]]"

definition BIDI_CONTROL_CATEGORY :: string where
  "BIDI_CONTROL_CATEGORY = ''Bidirectional Control''"

definition BIDI_CONTROL_MESSAGE :: string where
  "BIDI_CONTROL_MESSAGE =
     ''Bidirectional control character; can alter text display order, potentially obfuscating logic.''"

definition deprecatedTagChars :: "jsstring list" where
  "deprecatedTagChars = map fromCodePoint [0xE0000 ..< 0xE0080]"

definition DEPRECATED_TAG_CATEGORY :: string where
  "DEPRECATED_TAG_CATEGORY = ''Deprecated Tag''"

definition DEPRECATED_TAG_MESSAGE :: string where
  "DEPRECATED_TAG_MESSAGE = ''Deprecated Unicode tag character; may be used for obfuscation.''"

definition variationSelectors :: "jsstring list" where
  "variationSelectors =
     map fromCodePoint [0xFE00 ..< 0xFE10] @ map fromCodePoint [0xE0100 ..< 0xE01F0]"

definition VARIATION_SELECTOR_CATEGORY :: string where
  "VARIATION_SELECTOR_CATEGORY = ''Variation Selector''"

definition VARIATION_SELECTOR_MESSAGE :: string where
  "VARIATION_SELECTOR_MESSAGE =
     ''Variation selector; while sometimes legitimate, can be used in confusable character sequences.''"

text \<open>
  \<open>allHiddenChars\<close> is a \<^verbatim>\<open>Map\<close> built from the list of entries; when a key occurs
  twice the later entry wins, hence the reversal before \<open>map_of\<close>. A value is the pair
  (category, message).
\<close>

definition allHiddenCharsEntries :: "(jsstring \<times> string \<times> string) list" where
  "allHiddenCharsEntries =
     map (\<lambda>c. (c, ZERO_WIDTH_CATEGORY, ZERO_WIDTH_MESSAGE)) zeroWidthChars @
     map (\<lambda>c. (c, BIDI_CONTROL_CATEGORY, BIDI_CONTROL_MESSAGE)) bidiControlChars @
     map (\<lambda>c. (c, DEPRECATED_TAG_CATEGORY, DEPRECATED_TAG_MESSAGE)) deprecatedTagChars @
     map (\<lambda>c. (c, VARIATION_SELECTOR_CATEGORY, VARIATION_SELECTOR_MESSAGE)) variationSelectors"

definition allHiddenChars :: "jsstring \<Rightarrow> (string \<times> string) option" where
  "allHiddenChars = map_of (rev allHiddenCharsEntries)"

section \<open>detector.ts\<close>

record HiddenCharacterInfo =
  character :: string
  codePoint :: int
  index :: nat
  line :: int
  column :: int
  endIndex :: "int option"
  endLine :: "int option"
  endColumn :: "int option"
  category :: string
  message :: string

definition BINARY_ENCODING_CHARS :: "jsstring list" where
  "BINARY_ENCODING_CHARS = [[0x200B], [0x200C], [0x200D], [0xFEFF], [0x2062], [0x2064]]"

definition MIN_PATTERN_LENGTH :: nat where
  "MIN_PATTERN_LENGTH = 8"

subsection \<open>The inner loop: extending a run of the pattern alphabet\<close>

record patternState =
  patternI :: nat
  currentPatternLine :: int
  currentPatternLineStartIndex :: int
  patternLength :: nat
  patternEndIndex :: int
  patternEndLine :: int
  patternEndColumn :: int

text \<open>One iteration of the inner \<^verbatim>\<open>while\<close>; \<open>None\<close> is the \<^verbatim>\<open>break\<close>.\<close>

definition patternStep :: "jsstring \<Rightarrow> patternState \<Rightarrow> patternState option" where
  "patternStep text ps =
     (let patternChar = text ! patternI ps in
      case codePointAt text (patternI ps) of
        None \<Rightarrow> None
      | Some patternCodePoint \<Rightarrow>
          let isPatternSurrogate = (patternCodePoint > 0xFFFF);
              patternCharToCheck =
                (if isPatternSurrogate then fromCodePoint patternCodePoint else [patternChar])
          in if patternCharToCheck \<in> set BINARY_ENCODING_CHARS then
               let ps1 = ps\<lparr>patternLength := patternLength ps + 1,
                             patternEndIndex := int (patternI ps),
                             patternEndLine := currentPatternLine ps,
                             patternEndColumn := int (patternI ps) - currentPatternLineStartIndex ps\<rparr>;
                   ps2 = (if patternChar = 0x0A
                          then ps1\<lparr>currentPatternLine := currentPatternLine ps1 + 1,
                                    currentPatternLineStartIndex := int (patternI ps1) + 1\<rparr>
                          else ps1);
                   ps3 = (if isPatternSurrogate then ps2\<lparr>patternI := patternI ps2 + 1\<rparr> else ps2)
               in Some (ps3\<lparr>patternI := patternI ps3 + 1\<rparr>)
             else None)"

function patternLoop :: "jsstring \<Rightarrow> patternState \<Rightarrow> patternState" where
  "patternLoop text ps =
     (if patternI ps < length text then
        (case patternStep text ps of None \<Rightarrow> ps | Some ps' \<Rightarrow> patternLoop text ps')
      else ps)"
  by pat_completeness auto
termination
  by (relation "measure (\<lambda>(text, ps). length text - patternI ps)")
     (auto simp: patternStep_def Let_def split: option.splits if_splits)

declare patternLoop.simps [simp del]

definition initialPattern :: "nat \<Rightarrow> int \<Rightarrow> int \<Rightarrow> patternState" where
  "initialPattern i ln currentLineStartIndex =
     \<lparr>patternI = i, currentPatternLine = ln,
      currentPatternLineStartIndex = currentLineStartIndex,
      patternLength = 0, patternEndIndex = - 1, patternEndLine = - 1, patternEndColumn = - 1\<rparr>"

subsection \<open>The suppression heuristics\<close>

text \<open>
  The two regular expressions of the detector test Unicode properties whose tables belong
  to the JavaScript engine, not to the repository. They are parameters of the model:
  \<open>cz c\<close> stands for \<^verbatim>\<open>/\p{C}|\p{Z}/u.test(String.fromCodePoint(c))\<close> and \<open>em c\<close> for
  \<^verbatim>\<open>/\p{Emoji}|\p{Emoji_Modifier_Base}/u.test(String.fromCodePoint(c))\<close>.
\<close>

text \<open>
  \<open>getPreviousBaseCharStartIndex\<close>. Its second step, which moves from a low surrogate to the
  high surrogate in front of it, is a function of its own here. The other local helper of
  the source, \<^verbatim>\<open>getCodePoint\<close>, is never called and has no counterpart.
\<close>

definition previousBaseStep2 :: "jsstring \<Rightarrow> nat \<Rightarrow> int" where
  "previousBaseStep2 txt relevantIndex =
     (case charCodeAt txt relevantIndex of
        None \<Rightarrow> int relevantIndex
      | Some charCode \<Rightarrow>
          if charCode \<ge> 0xDC00 \<and> charCode \<le> 0xDFFF \<and> relevantIndex > 0 then
            (case charCodeAt txt (relevantIndex - 1) of
               None \<Rightarrow> int relevantIndex
             | Some prevCharCode \<Rightarrow>
                 if prevCharCode \<ge> 0xD800 \<and> prevCharCode \<le> 0xDBFF
                 then int relevantIndex - 1 else int relevantIndex)
          else int relevantIndex)"

definition getPreviousBaseCharStartIndex :: "jsstring \<Rightarrow> nat \<Rightarrow> int" where
  "getPreviousBaseCharStartIndex txt idx =
     (if idx \<le> 0 then - 1
      else if codePointAt txt (idx - 1) = Some 0xFE0F
      then (if int (idx - 1) - 1 < 0 then - 1 else previousBaseStep2 txt (idx - 1 - 1))
      else previousBaseStep2 txt (idx - 1))"

definition skipVS16 :: "(nat \<Rightarrow> bool) \<Rightarrow> jsstring \<Rightarrow> nat \<Rightarrow> bool" where
  "skipVS16 cz text startIndex =
     (let prevBaseCharIndex = getPreviousBaseCharStartIndex text startIndex in
      if prevBaseCharIndex \<noteq> - 1 then
        (case codePointAt text (nat prevBaseCharIndex) of
           None \<Rightarrow> False
         | Some prevCodePoint \<Rightarrow> if prevCodePoint \<noteq> 0 then \<not> cz prevCodePoint else False)
      else False)"

definition skipZWJ :: "(nat \<Rightarrow> bool) \<Rightarrow> (nat \<Rightarrow> bool) \<Rightarrow> jsstring \<Rightarrow> nat \<Rightarrow> bool" where
  "skipZWJ cz em text startIndex =
     (let prevBaseCharIndex = getPreviousBaseCharStartIndex text startIndex;
          prevCodePoint =
            (if prevBaseCharIndex \<noteq> - 1 then codePointAt text (nat prevBaseCharIndex) else None);
          precededByEmojiComponent =
            (case prevCodePoint of
               None \<Rightarrow> False
             | Some c \<Rightarrow> if c \<noteq> 0 then em c else False);
          nextCharIndex = startIndex + 1;
          nextCodePoint =
            (if nextCharIndex < length text then codePointAt text nextCharIndex else None);
          succeededByPotentialComponent =
            (case nextCodePoint of
               None \<Rightarrow> False
             | Some c \<Rightarrow> if c \<noteq> 0 then c = 0xFE0F \<or> \<not> cz c else False)
      in precededByEmojiComponent \<and> succeededByPotentialComponent)"

subsection \<open>The main loop\<close>

text \<open>
  The loop state is the cursor \<open>i\<close>, the line counter, \<open>currentLineStartIndex\<close> and
  the \<open>results\<close> array, to which findings are pushed.
\<close>

type_synonym scanState = "nat \<times> int \<times> int \<times> HiddenCharacterInfo list"

definition patternFinding :: "nat \<Rightarrow> int \<Rightarrow> int \<Rightarrow> patternState \<Rightarrow> HiddenCharacterInfo" where
  "patternFinding startIndex startLine startColumn ps =
     \<lparr>character = ''[Binary Pattern ('' @ toDecimal (patternLength ps) @ '' chars)]'',
      codePoint = - 1,
      index = startIndex,
      line = startLine,
      column = startColumn,
      endIndex = Some (patternEndIndex ps),
      endLine = Some (patternEndLine ps),
      endColumn = Some (patternEndColumn ps),
      category = ''BinaryEncodingPattern'',
      message = ''Potential binary encoding detected using a sequence of '' @
                toDecimal (patternLength ps) @ '' zero-width characters.''\<rparr>"

definition charFinding ::
  "nat \<Rightarrow> nat \<Rightarrow> int \<Rightarrow> int \<Rightarrow> string \<times> string \<Rightarrow> HiddenCharacterInfo" where
  "charFinding startCodePoint startIndex startLine startColumn hiddenInfo =
     \<lparr>character = ''U+'' @ padStart4 (toHexUpper startCodePoint),
      codePoint = int startCodePoint,
      index = startIndex,
      line = startLine,
      column = startColumn,
      endIndex = None,
      endLine = None,
      endColumn = None,
      category = fst hiddenInfo,
      message = snd hiddenInfo\<rparr>"

text \<open>The string that is looked up in the tables: both units of a surrogate pair, else one unit.\<close>

definition startCharToCheck :: "jsstring \<Rightarrow> nat \<Rightarrow> nat \<Rightarrow> jsstring" where
  "startCharToCheck text i startCodePoint =
     (if startCodePoint > 0xFFFF then fromCodePoint startCodePoint else [text ! i])"

text \<open>Pattern detection at the cursor: the inner loop runs only from a member of the alphabet.\<close>

definition detectPattern :: "jsstring \<Rightarrow> nat \<Rightarrow> int \<Rightarrow> int \<Rightarrow> nat \<Rightarrow> patternState" where
  "detectPattern text i ln currentLineStartIndex startCodePoint =
     (if startCharToCheck text i startCodePoint \<in> set BINARY_ENCODING_CHARS
      then patternLoop text (initialPattern i ln currentLineStartIndex)
      else initialPattern i ln currentLineStartIndex)"

text \<open>The branch taken when the run is long enough: one finding, the cursor moves past the run.\<close>

definition patternBranch :: "jsstring \<Rightarrow> scanState \<Rightarrow> patternState \<Rightarrow> scanState" where
  "patternBranch text st ps =
     (case st of (i, ln, currentLineStartIndex, results) \<Rightarrow>
        (i + patternLength ps,
         patternEndLine ps,
         (let l = lastIndexOf text 0x0A (patternEndIndex ps) in if l = - 1 then 0 else l + 1),
         results @ [patternFinding i ln (int i - currentLineStartIndex) ps]))"

text \<open>The single-character branch: table lookup, the two heuristics, line bookkeeping, advance.\<close>

definition singleBranch ::
  "(nat \<Rightarrow> bool) \<Rightarrow> (nat \<Rightarrow> bool) \<Rightarrow> jsstring \<Rightarrow> scanState \<Rightarrow> nat \<Rightarrow> scanState" where
  "singleBranch cz em text st startCodePoint =
     (case st of (i, ln, currentLineStartIndex, results) \<Rightarrow>
      let startChar = text ! i;
          isStartSurrogate = (startCodePoint > 0xFFFF);
          results' =
            (case allHiddenChars (startCharToCheck text i startCodePoint) of
               None \<Rightarrow> results
             | Some hiddenInfo \<Rightarrow>
                 let isVS16 = (startCodePoint = 0xFE0F);
                     isZWJ = (startCodePoint = 0x200D);
                     skipDiagnostic =
                       (if isVS16 then skipVS16 cz text i
                        else if isZWJ then skipZWJ cz em text i
                        else False)
                 in if \<not> skipDiagnostic
                    then results @
                      [charFinding startCodePoint i ln (int i - currentLineStartIndex) hiddenInfo]
                    else results);
          ln' = (if startChar = 0x0A then ln + 1 else ln);
          currentLineStartIndex' =
            (if startChar = 0x0A then int i + 1 else currentLineStartIndex)
      in ((if isStartSurrogate then i + 1 else i) + 1, ln', currentLineStartIndex', results'))"

text \<open>
  One iteration of the main \<^verbatim>\<open>while\<close>. Inside the loop \<open>codePointAt\<close> is never
  undefined; the \<open>None\<close> case follows the source all the same (no pattern, no lookup
  result, advance by one unit).
\<close>

definition scanStep :: "(nat \<Rightarrow> bool) \<Rightarrow> (nat \<Rightarrow> bool) \<Rightarrow> jsstring \<Rightarrow> scanState \<Rightarrow> scanState" where
  "scanStep cz em text st =
     (case codePointAt text (fst st) of
        None \<Rightarrow> (fst st + 1, fst (snd st), fst (snd (snd st)), snd (snd (snd st)))
      | Some startCodePoint \<Rightarrow>
          let ps = detectPattern text (fst st) (fst (snd st)) (fst (snd (snd st))) startCodePoint
          in if patternLength ps \<ge> MIN_PATTERN_LENGTH
             then patternBranch text st ps
             else singleBranch cz em text st startCodePoint)"

function scanLoop :: "(nat \<Rightarrow> bool) \<Rightarrow> (nat \<Rightarrow> bool) \<Rightarrow> jsstring \<Rightarrow> scanState \<Rightarrow> scanState" where
  "scanLoop cz em text st =
     (if fst st < length text then scanLoop cz em text (scanStep cz em text st) else st)"
  by pat_completeness auto
termination
  by (relation "measure (\<lambda>(cz, em, text, st). length text - fst st)")
     (auto simp: scanStep_def patternBranch_def singleBranch_def Let_def MIN_PATTERN_LENGTH_def
        split: option.splits prod.splits)

declare scanLoop.simps [simp del]

definition detectHiddenCharacters ::
  "(nat \<Rightarrow> bool) \<Rightarrow> (nat \<Rightarrow> bool) \<Rightarrow> jsstring \<Rightarrow> HiddenCharacterInfo list" where
  "detectHiddenCharacters cz em text = snd (snd (snd (scanLoop cz em text (0, 1, 0, []))))"

section \<open>Notions used to state and prove the properties\<close>

text \<open>Membership of a code unit in the pattern alphabet, the length of the run of alphabet
  units that starts at an index, and a well-formed surrogate pair at an index.\<close>

definition inAlphabet :: "16 word \<Rightarrow> bool" where
  "inAlphabet u = ([u] \<in> set BINARY_ENCODING_CHARS)"

definition runLength :: "jsstring \<Rightarrow> nat \<Rightarrow> nat" where
  "runLength text i = length (takeWhile inAlphabet (drop i text))"

definition isPair :: "jsstring \<Rightarrow> nat \<Rightarrow> bool" where
  "isPair text i =
     (i + 1 < length text \<and> 0xD800 \<le> unat (text ! i) \<and> unat (text ! i) \<le> 0xDBFF \<and>
      0xDC00 \<le> unat (text ! (i + 1)) \<and> unat (text ! (i + 1)) \<le> 0xDFFF)"

text \<open>What one iteration at cursor \<open>i\<close> does to the cursor, to the line counters and to the
  result list, written without the loops; \<open>scanStep_eq\<close> below proves that this is the
  iteration of the source.\<close>

definition nextCursor :: "jsstring \<Rightarrow> nat \<Rightarrow> nat" where
  "nextCursor text i =
     (if MIN_PATTERN_LENGTH \<le> runLength text i then i + runLength text i
      else if isPair text i then i + 2 else i + 1)"

definition nextLine :: "jsstring \<Rightarrow> nat \<Rightarrow> int \<Rightarrow> int" where
  "nextLine text i ln =
     (if MIN_PATTERN_LENGTH \<le> runLength text i then ln
      else if text ! i = 0x0A then ln + 1 else ln)"

definition nextLineStart :: "jsstring \<Rightarrow> nat \<Rightarrow> int \<Rightarrow> int" where
  "nextLineStart text i c =
     (if MIN_PATTERN_LENGTH \<le> runLength text i
      then (let l = lastIndexOf text 0x0A (int (i + runLength text i) - 1)
            in if l = - 1 then 0 else l + 1)
      else if text ! i = 0x0A then int i + 1 else c)"

definition runPattern :: "jsstring \<Rightarrow> nat \<Rightarrow> int \<Rightarrow> int \<Rightarrow> patternState" where
  "runPattern text i ln c =
     \<lparr>patternI = i + runLength text i, currentPatternLine = ln,
      currentPatternLineStartIndex = c,
      patternLength = runLength text i,
      patternEndIndex = int (i + runLength text i) - 1,
      patternEndLine = ln,
      patternEndColumn = int (i + runLength text i) - 1 - c\<rparr>"

definition suppressed :: "(nat \<Rightarrow> bool) \<Rightarrow> (nat \<Rightarrow> bool) \<Rightarrow> jsstring \<Rightarrow> nat \<Rightarrow> nat \<Rightarrow> bool" where
  "suppressed cz em text i cp =
     (if cp = 0xFE0F then skipVS16 cz text i
      else if cp = 0x200D then skipZWJ cz em text i else False)"

definition emitted ::
  "(nat \<Rightarrow> bool) \<Rightarrow> (nat \<Rightarrow> bool) \<Rightarrow> jsstring \<Rightarrow> nat \<Rightarrow> int \<Rightarrow> int \<Rightarrow> HiddenCharacterInfo list" where
  "emitted cz em text i ln c =
     (if MIN_PATTERN_LENGTH \<le> runLength text i
      then [patternFinding i ln (int i - c) (runPattern text i ln c)]
      else case codePointAt text i of
             None \<Rightarrow> []
           | Some cp \<Rightarrow>
               (case allHiddenChars (startCharToCheck text i cp) of
                  None \<Rightarrow> []
                | Some info \<Rightarrow>
                    if suppressed cz em text i cp then []
                    else [charFinding cp i ln (int i - c) info]))"

text \<open>The findings pushed from a given loop state onwards.\<close>

definition findingsFrom ::
  "(nat \<Rightarrow> bool) \<Rightarrow> (nat \<Rightarrow> bool) \<Rightarrow> jsstring \<Rightarrow> nat \<Rightarrow> int \<Rightarrow> int \<Rightarrow> HiddenCharacterInfo list" where
  "findingsFrom cz em text i ln c = snd (snd (snd (scanLoop cz em text (i, ln, c, []))))"

definition lowSurrogate :: "16 word \<Rightarrow> bool" where
  "lowSurrogate u = (0xDC00 \<le> unat u \<and> unat u \<le> 0xDFFF)"

text \<open>
  A maximal run of the pattern alphabet: \<open>n\<close> units from index \<open>s\<close>, all of them in the
  alphabet, with no alphabet unit directly before or after.
\<close>

definition maximalRun :: "jsstring \<Rightarrow> nat \<Rightarrow> nat \<Rightarrow> bool" where
  "maximalRun text s n =
     (0 < n \<and> s + n \<le> length text \<and> list_all inAlphabet (take n (drop s text)) \<and>
      (s = 0 \<or> \<not> inAlphabet (text ! (s - 1))) \<and>
      (s + n = length text \<or> \<not> inAlphabet (text ! (s + n))))"

text \<open>
  The preceding base scalar value of the heuristics, in the words of the specification:
  from the index, skip back over one VS16 if present, then take the scalar value that ends
  there (\<open>scalarBefore\<close>), a surrogate pair counting as one.
\<close>

definition scalarBefore :: "jsstring \<Rightarrow> nat \<Rightarrow> nat option" where
  "scalarBefore text j =
     (if j = 0 then None
      else if 2 \<le> j \<and> lowSurrogate (text ! (j - 1)) \<and>
              0xD800 \<le> unat (text ! (j - 2)) \<and> unat (text ! (j - 2)) \<le> 0xDBFF
      then Some ((unat (text ! (j - 2)) - 0xD800) * 0x400 + (unat (text ! (j - 1)) - 0xDC00) + 0x10000)
      else Some (unat (text ! (j - 1))))"

definition precedingBaseScalar :: "jsstring \<Rightarrow> nat \<Rightarrow> nat option" where
  "precedingBaseScalar text k =
     scalarBefore text (if 0 < k \<and> text ! (k - 1) = 0xFE0F then k - 1 else k)"

text \<open>
  Sample values for the two property tests, used where a property is instantiated on a
  concrete text: a fragment of the Unicode tables (C0 and C1 controls, spaces, format
  characters, surrogates and private use; a few characters with the Emoji property).
\<close>

definition sampleControlOrSeparator :: "nat \<Rightarrow> bool" where
  "sampleControlOrSeparator c =
     (c \<le> 0x20 \<or> (0x7F \<le> c \<and> c \<le> 0xA0) \<or> c = 0xAD \<or> (0x2000 \<le> c \<and> c \<le> 0x200F) \<or>
      (0x2028 \<le> c \<and> c \<le> 0x202F) \<or> (0x205F \<le> c \<and> c \<le> 0x206F) \<or> c = 0x3000 \<or>
      (0xD800 \<le> c \<and> c \<le> 0xF8FF) \<or> c = 0xFEFF)"

definition sampleEmoji :: "nat \<Rightarrow> bool" where
  "sampleEmoji c =
     (c = 0x23 \<or> c = 0x2A \<or> (0x30 \<le> c \<and> c \<le> 0x39) \<or> c = 0xA9 \<or> c = 0xAE \<or> c = 0x2764 \<or>
      (0x1F466 \<le> c \<and> c \<le> 0x1F469) \<or> (0x1F600 \<le> c \<and> c \<le> 0x1F64F))"

section \<open>Code units, code points and the pattern alphabet\<close>

lemma inAlphabet_iff:
  "inAlphabet u \<longleftrightarrow> u = 0x200B \<or> u = 0x200C \<or> u = 0x200D \<or> u = 0xFEFF \<or> u = 0x2062 \<or> u = 0x2064"
  by (auto simp: inAlphabet_def BINARY_ENCODING_CHARS_def)

lemma inAlphabet_not_surrogate:
  "inAlphabet u \<Longrightarrow> \<not> (0xD800 \<le> unat u \<and> unat u \<le> 0xDFFF)"
  by (auto simp: inAlphabet_iff)

lemma inAlphabet_not_newline: "\<not> inAlphabet 0x0A"
  by (simp add: inAlphabet_iff)

lemma unat_unit_bound: "unat (u :: 16 word) < 65536"
  using unsigned_less [of u, where 'a = nat] by simp

lemma codePointAt_pair:
  "isPair tx i \<Longrightarrow>
   codePointAt tx i =
     Some ((unat (tx ! i) - 0xD800) * 0x400 + (unat (tx ! (i + 1)) - 0xDC00) + 0x10000)"
  by (auto simp: codePointAt_def isPair_def Let_def)

lemma codePointAt_single:
  "i < length tx \<Longrightarrow> \<not> isPair tx i \<Longrightarrow> codePointAt tx i = Some (unat (tx ! i))"
  by (auto simp: codePointAt_def isPair_def Let_def)

lemma codePointAt_large_iff:
  "codePointAt tx i = Some cp \<Longrightarrow> 0xFFFF < cp \<longleftrightarrow> isPair tx i"
  using unat_unit_bound [of "tx ! i"]
  by (cases "isPair tx i") (auto simp: codePointAt_pair codePointAt_def isPair_def Let_def split: if_splits)

lemma codePointAt_Some: "i < length tx \<Longrightarrow> \<exists>cp. codePointAt tx i = Some cp"
  by (cases "isPair tx i") (auto simp: codePointAt_pair codePointAt_single)

lemma fromCodePoint_not_alphabet: "0xFFFF < cp \<Longrightarrow> fromCodePoint cp \<notin> set BINARY_ENCODING_CHARS"
  by (auto simp: fromCodePoint_def BINARY_ENCODING_CHARS_def)

lemma charToCheck_alphabet:
  assumes "codePointAt tx i = Some cp"
  shows "startCharToCheck tx i cp \<in> set BINARY_ENCODING_CHARS \<longleftrightarrow> inAlphabet (tx ! i)"
proof (cases "0xFFFF < cp")
  case True
  with assms have "isPair tx i" by (simp add: codePointAt_large_iff)
  then have "\<not> inAlphabet (tx ! i)"
    using inAlphabet_not_surrogate [of "tx ! i"] by (auto simp: isPair_def)
  with True show ?thesis by (simp add: fromCodePoint_not_alphabet startCharToCheck_def)
next
  case False
  then show ?thesis by (simp add: inAlphabet_def startCharToCheck_def)
qed

subsection \<open>The inner loop computes the run length\<close>

lemma patternStep_char:
  assumes "patternI ps < length tx"
  shows "patternStep tx ps =
     (if inAlphabet (tx ! patternI ps)
      then Some (ps\<lparr>patternLength := patternLength ps + 1,
                    patternEndIndex := int (patternI ps),
                    patternEndLine := currentPatternLine ps,
                    patternEndColumn := int (patternI ps) - currentPatternLineStartIndex ps,
                    patternI := patternI ps + 1\<rparr>)
      else None)"
proof -
  obtain cp where cp: "codePointAt tx (patternI ps) = Some cp"
    using codePointAt_Some [OF assms] by blast
  note a = charToCheck_alphabet [OF cp, unfolded startCharToCheck_def]
  show ?thesis
  proof (cases "inAlphabet (tx ! patternI ps)")
    case True
    then have "\<not> isPair tx (patternI ps)"
      using inAlphabet_not_surrogate [of "tx ! patternI ps"] by (auto simp: isPair_def)
    then have small: "\<not> 0xFFFF < cp" using cp by (simp add: codePointAt_large_iff)
    have nl: "tx ! patternI ps \<noteq> 0x0A" using True inAlphabet_not_newline by auto
    show ?thesis using True a small nl
      by (simp add: patternStep_def cp Let_def)
  next
    case False
    then show ?thesis using a by (auto simp add: patternStep_def cp Let_def)
  qed
qed

lemma runLength_ge: "length tx \<le> i \<Longrightarrow> runLength tx i = 0"
  by (simp add: runLength_def)

lemma runLength_step:
  "i < length tx \<Longrightarrow>
   runLength tx i = (if inAlphabet (tx ! i) then Suc (runLength tx (Suc i)) else 0)"
  by (simp add: runLength_def Cons_nth_drop_Suc [symmetric])

lemma patternLoop_char:
  "patternLoop tx ps =
     (let n = runLength tx (patternI ps) in
      if n = 0 then ps
      else ps\<lparr>patternLength := patternLength ps + n,
               patternEndIndex := int (patternI ps + n) - 1,
               patternEndLine := currentPatternLine ps,
               patternEndColumn := int (patternI ps + n) - 1 - currentPatternLineStartIndex ps,
               patternI := patternI ps + n\<rparr>)"
proof (induction tx ps rule: patternLoop.induct)
  case (1 tx ps)
  show ?case
  proof (cases "patternI ps < length tx")
    case False
    then show ?thesis by (simp add: patternLoop.simps [of tx ps] runLength_ge)
  next
    case True
    show ?thesis
    proof (cases "inAlphabet (tx ! patternI ps)")
      case False
      then show ?thesis using True
        by (simp add: patternLoop.simps [of tx ps] patternStep_char runLength_step)
    next
      case al: True
      define ps' where "ps' = ps\<lparr>patternLength := patternLength ps + 1,
                    patternEndIndex := int (patternI ps),
                    patternEndLine := currentPatternLine ps,
                    patternEndColumn := int (patternI ps) - currentPatternLineStartIndex ps,
                    patternI := patternI ps + 1\<rparr>"
      have st: "patternStep tx ps = Some ps'"
        using True al by (simp add: patternStep_char ps'_def)
      have ih: "patternLoop tx ps' =
        (let n = runLength tx (patternI ps') in
          if n = 0 then ps'
          else ps'\<lparr>patternLength := patternLength ps' + n,
               patternEndIndex := int (patternI ps' + n) - 1,
               patternEndLine := currentPatternLine ps',
               patternEndColumn := int (patternI ps' + n) - 1 - currentPatternLineStartIndex ps',
               patternI := patternI ps' + n\<rparr>)"
        using "1.IH" [OF True st] .
      have rl: "runLength tx (patternI ps) = Suc (runLength tx (Suc (patternI ps)))"
        using True al by (simp add: runLength_step)
      have "patternLoop tx ps = patternLoop tx ps'"
        using True st by (simp add: patternLoop.simps [of tx ps])
      then show ?thesis
        unfolding ih rl by (simp add: ps'_def Let_def)
    qed
  qed
qed


lemma runLength_pos_alphabet:
  "i < length tx \<Longrightarrow> 0 < runLength tx i \<longleftrightarrow> inAlphabet (tx ! i)"
  by (simp add: runLength_step)

lemma patternLoop_initial:
  "patternLoop tx (initialPattern i ln c) =
     (if runLength tx i = 0 then initialPattern i ln c else runPattern tx i ln c)"
  by (simp add: patternLoop_char Let_def initialPattern_def runPattern_def)

subsection \<open>One iteration of the main loop\<close>

lemma detectPattern_eq:
  assumes "codePointAt tx i = Some cp"
  shows "detectPattern tx i ln c cp =
     (if runLength tx i = 0 then initialPattern i ln c else runPattern tx i ln c)"
proof -
  have "i < length tx" using assms by (auto simp: codePointAt_def split: if_splits)
  then show ?thesis
    using charToCheck_alphabet [OF assms] runLength_pos_alphabet [of i tx]
    by (auto simp: detectPattern_def patternLoop_initial)
qed

lemma scanStep_eq:
  assumes "i < length tx"
  shows "scanStep cz em tx (i, ln, c, rs) =
           (nextCursor tx i, nextLine tx i ln, nextLineStart tx i c, rs @ emitted cz em tx i ln c)"
proof -
  obtain cp where cp: "codePointAt tx i = Some cp"
    using codePointAt_Some [OF assms] by blast
  note pr = codePointAt_large_iff [OF cp]
  show ?thesis
  proof (cases "MIN_PATTERN_LENGTH \<le> runLength tx i")
    case True
    then have pos: "runLength tx i \<noteq> 0" by (simp add: MIN_PATTERN_LENGTH_def)
    have dp: "detectPattern tx i ln c cp = runPattern tx i ln c"
      using pos by (simp add: detectPattern_eq [OF cp])
    have "scanStep cz em tx (i, ln, c, rs) = patternBranch tx (i, ln, c, rs) (runPattern tx i ln c)"
      using True by (simp add: scanStep_def cp dp Let_def runPattern_def)
    also have "\<dots> = (nextCursor tx i, nextLine tx i ln, nextLineStart tx i c,
                     rs @ emitted cz em tx i ln c)"
      using True
      by (simp add: patternBranch_def nextCursor_def nextLine_def nextLineStart_def emitted_def
          runPattern_def)
    finally show ?thesis .
  next
    case False
    have small: "\<not> MIN_PATTERN_LENGTH \<le> patternLength (detectPattern tx i ln c cp)"
      using False
      by (simp add: detectPattern_eq [OF cp] initialPattern_def runPattern_def MIN_PATTERN_LENGTH_def)
    have "scanStep cz em tx (i, ln, c, rs) = singleBranch cz em tx (i, ln, c, rs) cp"
      using small by (simp add: scanStep_def cp Let_def)
    also have "\<dots> = (nextCursor tx i, nextLine tx i ln, nextLineStart tx i c,
                     rs @ emitted cz em tx i ln c)"
      using False
      by (simp add: singleBranch_def Let_def pr cp nextCursor_def nextLine_def nextLineStart_def
          emitted_def suppressed_def split: option.splits)
    finally show ?thesis .
  qed
qed

subsection \<open>The main loop as a list of findings\<close>

lemma runLength_le: "runLength tx i \<le> length tx - i"
  using length_takeWhile_le [of inAlphabet "drop i tx"] by (simp add: runLength_def)

lemma nextCursor_gt: "i < nextCursor tx i"
  by (simp add: nextCursor_def MIN_PATTERN_LENGTH_def)

lemma nextCursor_le: "i < length tx \<Longrightarrow> nextCursor tx i \<le> length tx"
  using runLength_le [of tx i] by (auto simp: nextCursor_def isPair_def)

lemma scanLoop_results:
  "snd (snd (snd (scanLoop cz em tx (i, ln, c, rs)))) = rs @ findingsFrom cz em tx i ln c"
proof (induction "length tx - i" arbitrary: i ln c rs rule: less_induct)
  case less
  show ?case
  proof (cases "i < length tx")
    case False
    then show ?thesis
      by (simp add: findingsFrom_def scanLoop.simps [of cz em tx "(i, ln, c, rs)"]
          scanLoop.simps [of cz em tx "(i, ln, c, [])"])
  next
    case True
    have m: "length tx - nextCursor tx i < length tx - i"
      using True nextCursor_gt [of i tx] by arith
    have "snd (snd (snd (scanLoop cz em tx (i, ln, c, rs)))) =
          snd (snd (snd (scanLoop cz em tx
            (nextCursor tx i, nextLine tx i ln, nextLineStart tx i c, rs @ emitted cz em tx i ln c))))"
      using True by (simp add: scanLoop.simps [of cz em tx "(i, ln, c, rs)"] scanStep_eq)
    also have "\<dots> = (rs @ emitted cz em tx i ln c) @
          findingsFrom cz em tx (nextCursor tx i) (nextLine tx i ln) (nextLineStart tx i c)"
      by (rule less [OF m])
    also have "findingsFrom cz em tx i ln c = emitted cz em tx i ln c @
          findingsFrom cz em tx (nextCursor tx i) (nextLine tx i ln) (nextLineStart tx i c)"
    proof -
      have "findingsFrom cz em tx i ln c = snd (snd (snd (scanLoop cz em tx
            (nextCursor tx i, nextLine tx i ln, nextLineStart tx i c, [] @ emitted cz em tx i ln c))))"
        using True
        by (simp add: findingsFrom_def scanLoop.simps [of cz em tx "(i, ln, c, [])"] scanStep_eq)
      also have "\<dots> = ([] @ emitted cz em tx i ln c) @
          findingsFrom cz em tx (nextCursor tx i) (nextLine tx i ln) (nextLineStart tx i c)"
        by (rule less [OF m])
      finally show ?thesis by simp
    qed
    then show ?thesis using calculation by simp
  qed
qed

lemma findingsFrom_unfold:
  "findingsFrom cz em tx i ln c =
     (if i < length tx
      then emitted cz em tx i ln c @
           findingsFrom cz em tx (nextCursor tx i) (nextLine tx i ln) (nextLineStart tx i c)
      else [])"
proof (cases "i < length tx")
  case True
  have "findingsFrom cz em tx i ln c = snd (snd (snd (scanLoop cz em tx
          (nextCursor tx i, nextLine tx i ln, nextLineStart tx i c, [] @ emitted cz em tx i ln c))))"
    using True
    by (simp add: findingsFrom_def scanLoop.simps [of cz em tx "(i, ln, c, [])"] scanStep_eq)
  then show ?thesis using True by (simp add: scanLoop_results)
next
  case False
  then show ?thesis
    by (simp add: findingsFrom_def scanLoop.simps [of cz em tx "(i, ln, c, [])"])
qed

lemma detect_findingsFrom: "detectHiddenCharacters cz em tx = findingsFrom cz em tx 0 1 0"
  by (simp add: detectHiddenCharacters_def findingsFrom_def)

lemma emitted_index: "f \<in> set (emitted cz em tx i ln c) \<Longrightarrow> index f = i"
  by (auto simp: emitted_def patternFinding_def charFinding_def split: if_splits option.splits)

lemma findingsFrom_index_ge:
  "f \<in> set (findingsFrom cz em tx i ln c) \<Longrightarrow> i \<le> index f"
proof (induction "length tx - i" arbitrary: i ln c rule: less_induct)
  case less
  from less.prems have lt: "i < length tx"
    by (subst (asm) findingsFrom_unfold) (simp split: if_splits)
  have m: "length tx - nextCursor tx i < length tx - i"
    using lt nextCursor_gt [of i tx] by arith
  from less.prems lt consider
    "f \<in> set (emitted cz em tx i ln c)"
    | "f \<in> set (findingsFrom cz em tx (nextCursor tx i) (nextLine tx i ln) (nextLineStart tx i c))"
    by (subst (asm) findingsFrom_unfold) auto
  then show ?case
  proof cases
    case 1
    then show ?thesis by (simp add: emitted_index)
  next
    case 2
    from less.hyps [OF m 2] nextCursor_gt [of i tx] show ?thesis by simp
  qed
qed

lemma findingsFrom_sorted:
  "sorted_wrt (<) (map index (findingsFrom cz em tx i ln c))"
proof (induction "length tx - i" arbitrary: i ln c rule: less_induct)
  case less
  show ?case
  proof (cases "i < length tx")
    case False
    then show ?thesis by (subst findingsFrom_unfold) simp
  next
    case True
    have m: "length tx - nextCursor tx i < length tx - i"
      using True nextCursor_gt [of i tx] by arith
    let ?rest = "findingsFrom cz em tx (nextCursor tx i) (nextLine tx i ln) (nextLineStart tx i c)"
    have s: "sorted_wrt (<) (map index ?rest)" by (rule less [OF m])
    have e: "sorted_wrt (<) (map index (emitted cz em tx i ln c))"
      by (auto simp: emitted_def split: option.splits)
    have x: "\<forall>a \<in> set (emitted cz em tx i ln c). \<forall>b \<in> set ?rest. index a < index b"
      using emitted_index findingsFrom_index_ge nextCursor_gt [of i tx] by fastforce
    show ?thesis
      using True s e x
      by (subst findingsFrom_unfold) (simp add: sorted_wrt_append)
  qed
qed

text \<open>Every finding was pushed by the iteration whose cursor is the finding's index.\<close>

lemma findingsFrom_emitted:
  "f \<in> set (findingsFrom cz em tx i ln c) \<Longrightarrow>
   index f < length tx \<and> (\<exists>ln' c'. f \<in> set (emitted cz em tx (index f) ln' c'))"
proof (induction "length tx - i" arbitrary: i ln c rule: less_induct)
  case less
  from less.prems have lt: "i < length tx"
    by (subst (asm) findingsFrom_unfold) (simp split: if_splits)
  have m: "length tx - nextCursor tx i < length tx - i"
    using lt nextCursor_gt [of i tx] by arith
  from less.prems lt consider
    "f \<in> set (emitted cz em tx i ln c)"
    | "f \<in> set (findingsFrom cz em tx (nextCursor tx i) (nextLine tx i ln) (nextLineStart tx i c))"
    by (subst (asm) findingsFrom_unfold) auto
  then show ?case
  proof cases
    case 1
    then show ?thesis using lt emitted_index by blast
  next
    case 2
    from less.hyps [OF m 2] show ?thesis .
  qed
qed

text \<open>The cursor reaches every index that no earlier iteration jumps over.\<close>

lemma findingsFrom_reach:
  assumes "i \<le> k" and "\<forall>j. i \<le> j \<and> j < k \<longrightarrow> nextCursor tx j \<le> k"
  shows "\<exists>pre ln' c'. findingsFrom cz em tx i ln c = pre @ findingsFrom cz em tx k ln' c' \<and>
           (\<forall>f \<in> set pre. index f < k)"
  using assms
proof (induction "k - i" arbitrary: i ln c rule: less_induct)
  case less
  show ?case
  proof (cases "i = k")
    case True
    then show ?thesis by (intro exI [of _ "[]"] exI [of _ ln] exI [of _ c]) simp
  next
    case False
    with less.prems have ik: "i < k" by simp
    then have nk: "nextCursor tx i \<le> k" using less.prems by simp
    have m: "k - nextCursor tx i < k - i" using ik nextCursor_gt [of i tx] by arith
    have all: "\<forall>j. nextCursor tx i \<le> j \<and> j < k \<longrightarrow> nextCursor tx j \<le> k"
      using less.prems nextCursor_gt [of i tx] by auto
    show ?thesis
    proof (cases "i < length tx")
      case True
      obtain pre ln' c' where
        p: "findingsFrom cz em tx (nextCursor tx i) (nextLine tx i ln) (nextLineStart tx i c) =
              pre @ findingsFrom cz em tx k ln' c'" and q: "\<forall>f \<in> set pre. index f < k"
        using less.hyps [OF m nk all] by blast
      have "findingsFrom cz em tx i ln c = (emitted cz em tx i ln c @ pre) @ findingsFrom cz em tx k ln' c'"
        using True p by (subst findingsFrom_unfold) simp
      moreover have "\<forall>f \<in> set (emitted cz em tx i ln c @ pre). index f < k"
        using q ik emitted_index by fastforce
      ultimately show ?thesis by blast
    next
      case False
      then have "findingsFrom cz em tx i ln c = []" "findingsFrom cz em tx k ln c = []"
        using ik by (simp_all add: findingsFrom_unfold [of cz em tx i] findingsFrom_unfold [of cz em tx k])
      then show ?thesis by (intro exI [of _ "[]"] exI [of _ ln] exI [of _ c]) simp
    qed
  qed
qed

lemma findings_window:
  assumes k: "k < length tx" and reach: "\<forall>j < k. nextCursor tx j \<le> k"
  shows "\<exists>ln' c'. filter (\<lambda>f. k \<le> index f \<and> index f < nextCursor tx k) (detectHiddenCharacters cz em tx)
           = emitted cz em tx k ln' c'"
proof -
  obtain pre ln' c' where
    p: "findingsFrom cz em tx 0 1 0 = pre @ findingsFrom cz em tx k ln' c'"
    and q: "\<forall>f \<in> set pre. index f < k"
    using findingsFrom_reach [of 0 k tx cz em 1 0] reach by auto
  let ?P = "\<lambda>f. k \<le> index f \<and> index f < nextCursor tx k"
  let ?rest = "findingsFrom cz em tx (nextCursor tx k) (nextLine tx k ln') (nextLineStart tx k c')"
  have u: "findingsFrom cz em tx k ln' c' = emitted cz em tx k ln' c' @ ?rest"
    using k by (subst findingsFrom_unfold) simp
  have 1: "filter ?P pre = []" using q by (auto simp: filter_empty_conv)
  have 2: "filter ?P (emitted cz em tx k ln' c') = emitted cz em tx k ln' c'"
    using emitted_index nextCursor_gt [of k tx] by (fastforce simp: filter_id_conv)
  have 3: "filter ?P ?rest = []"
    using findingsFrom_index_ge by (fastforce simp: filter_empty_conv)
  show ?thesis
    unfolding detect_findingsFrom p u using 1 2 3 by auto
qed

subsection \<open>The category table as a function\<close>

lemma map_of_const:
  "map_of (map (\<lambda>c. (c, v)) xs) k = (if k \<in> set xs then Some v else None)"
  by (induction xs) auto

lemma allHiddenChars_eq:
  "allHiddenChars s =
     (if s \<in> set variationSelectors then Some (VARIATION_SELECTOR_CATEGORY, VARIATION_SELECTOR_MESSAGE)
      else if s \<in> set deprecatedTagChars then Some (DEPRECATED_TAG_CATEGORY, DEPRECATED_TAG_MESSAGE)
      else if s \<in> set bidiControlChars then Some (BIDI_CONTROL_CATEGORY, BIDI_CONTROL_MESSAGE)
      else if s \<in> set zeroWidthChars then Some (ZERO_WIDTH_CATEGORY, ZERO_WIDTH_MESSAGE)
      else None)"
  unfolding allHiddenChars_def allHiddenCharsEntries_def rev_append rev_map map_of_append
  by (simp add: map_add_def map_of_const)

lemma of_nat_unit_eq: "c < 65536 \<Longrightarrow> (of_nat c :: 16 word) = u \<longleftrightarrow> c = unat u"
  by (auto simp: unat_of_nat)

lemma unit_in_bmp_range:
  assumes "b \<le> 65536"
  shows "[u] \<in> set (map fromCodePoint [a ..< b]) \<longleftrightarrow> a \<le> unat u \<and> unat u < b"
proof
  assume "[u] \<in> set (map fromCodePoint [a ..< b])"
  then obtain c where c: "a \<le> c" "c < b" "[u] = fromCodePoint c" by auto
  then have "u = of_nat c" using assms by (simp add: fromCodePoint_def)
  then have "unat u = c" using c assms by (simp add: unat_of_nat)
  with c show "a \<le> unat u \<and> unat u < b" by simp
next
  assume r: "a \<le> unat u \<and> unat u < b"
  then have "fromCodePoint (unat u) = [u]" using assms by (simp add: fromCodePoint_def)
  moreover have "unat u \<in> set [a ..< b]" using r by simp
  ultimately show "[u] \<in> set (map fromCodePoint [a ..< b])" by force
qed

lemma unit_not_in_supp_range:
  "65536 \<le> a \<Longrightarrow> [u] \<notin> set (map fromCodePoint [a ..< b])"
  by (auto simp: fromCodePoint_def)

lemma allHiddenChars_unit:
  "allHiddenChars [u] =
     (if 0xFE00 \<le> unat u \<and> unat u < 0xFE10
      then Some (VARIATION_SELECTOR_CATEGORY, VARIATION_SELECTOR_MESSAGE)
      else if [u] \<in> set bidiControlChars then Some (BIDI_CONTROL_CATEGORY, BIDI_CONTROL_MESSAGE)
      else if [u] \<in> set zeroWidthChars then Some (ZERO_WIDTH_CATEGORY, ZERO_WIDTH_MESSAGE)
      else None)"
proof -
  have a: "[u] \<in> set (map fromCodePoint [0xFE00 ..< 0xFE10]) \<longleftrightarrow> 0xFE00 \<le> unat u \<and> unat u < 0xFE10"
    by (rule unit_in_bmp_range) simp
  have b: "[u] \<notin> set (map fromCodePoint [0xE0100 ..< 0xE01F0])"
    by (rule unit_not_in_supp_range) simp
  have c: "[u] \<notin> set (map fromCodePoint [0xE0000 ..< 0xE0080])"
    by (rule unit_not_in_supp_range) simp
  have vs: "[u] \<in> set variationSelectors \<longleftrightarrow> 0xFE00 \<le> unat u \<and> unat u < 0xFE10"
    unfolding variationSelectors_def set_append Un_iff a using b by blast
  have tg: "[u] \<notin> set deprecatedTagChars"
    unfolding deprecatedTagChars_def by (rule c)
  show ?thesis
    unfolding allHiddenChars_eq using vs tg by simp
qed

lemma fromCodePoint_supp_inj:
  assumes "0xFFFF < c" "c \<le> 0x10FFFF" "0xFFFF < d" "d \<le> 0x10FFFF"
    and eq: "fromCodePoint c = fromCodePoint d"
  shows "c = d"
proof -
  let ?h = "\<lambda>x::nat. 0xD800 + (x - 0x10000) div 0x400"
  let ?l = "\<lambda>x::nat. 0xDC00 + (x - 0x10000) mod 0x400"
  have hb: "?h c < 65536" "?h d < 65536" using assms by simp_all
  have lb: "?l c < 65536" "?l d < 65536" by simp_all
  from eq assms have "(of_nat (?h c) :: 16 word) = of_nat (?h d)"
    and "(of_nat (?l c) :: 16 word) = of_nat (?l d)"
    by (simp_all add: fromCodePoint_def)
  then have "?h c = ?h d" "?l c = ?l d"
    using hb lb by (simp_all add: of_nat_unit_eq unat_of_nat)
  then have "(c - 0x10000) div 0x400 = (d - 0x10000) div 0x400"
    "(c - 0x10000) mod 0x400 = (d - 0x10000) mod 0x400" by simp_all
  then have "c - 0x10000 = d - 0x10000" by (metis div_mult_mod_eq)
  with assms show ?thesis by simp
qed

lemma supp_in_range:
  assumes "0xFFFF < cp" "cp \<le> 0x10FFFF" "0xFFFF < a" "b \<le> 0x110000"
  shows "fromCodePoint cp \<in> set (map fromCodePoint [a ..< b]) \<longleftrightarrow> a \<le> cp \<and> cp < b"
proof
  assume "fromCodePoint cp \<in> set (map fromCodePoint [a ..< b])"
  then obtain c where c: "a \<le> c" "c < b" "fromCodePoint cp = fromCodePoint c" by auto
  then have "cp = c" using assms by (intro fromCodePoint_supp_inj) simp_all
  with c show "a \<le> cp \<and> cp < b" by simp
qed auto

lemma supp_not_in_bmp_range:
  "0xFFFF < cp \<Longrightarrow> b \<le> 65536 \<Longrightarrow> fromCodePoint cp \<notin> set (map fromCodePoint [a ..< b])"
  by (auto simp: fromCodePoint_def)

lemma allHiddenChars_supp:
  assumes "0xFFFF < cp" "cp \<le> 0x10FFFF"
  shows "allHiddenChars (fromCodePoint cp) =
     (if 0xE0100 \<le> cp \<and> cp < 0xE01F0
      then Some (VARIATION_SELECTOR_CATEGORY, VARIATION_SELECTOR_MESSAGE)
      else if 0xE0000 \<le> cp \<and> cp < 0xE0080
      then Some (DEPRECATED_TAG_CATEGORY, DEPRECATED_TAG_MESSAGE)
      else None)"
proof -
  have z: "fromCodePoint cp \<notin> set zeroWidthChars" "fromCodePoint cp \<notin> set bidiControlChars"
    using assms by (auto simp: zeroWidthChars_def bidiControlChars_def fromCodePoint_def)
  have a: "fromCodePoint cp \<notin> set (map fromCodePoint [0xFE00 ..< 0xFE10])"
    by (rule supp_not_in_bmp_range) (use assms in simp_all)
  have b: "fromCodePoint cp \<in> set (map fromCodePoint [0xE0100 ..< 0xE01F0])
             \<longleftrightarrow> 0xE0100 \<le> cp \<and> cp < 0xE01F0"
    by (rule supp_in_range) (use assms in simp_all)
  have c: "fromCodePoint cp \<in> set (map fromCodePoint [0xE0000 ..< 0xE0080])
             \<longleftrightarrow> 0xE0000 \<le> cp \<and> cp < 0xE0080"
    by (rule supp_in_range) (use assms in simp_all)
  have vs: "fromCodePoint cp \<in> set variationSelectors \<longleftrightarrow> 0xE0100 \<le> cp \<and> cp < 0xE01F0"
    unfolding variationSelectors_def set_append Un_iff b using a by blast
  have tg: "fromCodePoint cp \<in> set deprecatedTagChars \<longleftrightarrow> 0xE0000 \<le> cp \<and> cp < 0xE0080"
    unfolding deprecatedTagChars_def by (rule c)
  show ?thesis
    unfolding allHiddenChars_eq using vs tg z by simp
qed

lemma allHiddenChars_category:
  "allHiddenChars s = Some info \<Longrightarrow>
   fst info \<in> {ZERO_WIDTH_CATEGORY, BIDI_CONTROL_CATEGORY, DEPRECATED_TAG_CATEGORY,
                VARIATION_SELECTOR_CATEGORY}"
  by (auto simp: allHiddenChars_eq split: if_splits)

subsection \<open>Evaluating the scanner on a concrete text\<close>

lemma runLength_eval:
  "runLength tx i = (if i < length tx \<and> inAlphabet (tx ! i) then runLength tx (i + 1) + 1 else 0)"
  by (cases "i < length tx") (simp_all add: runLength_step runLength_ge)

lemma lastIndexOfUpTo_eval:
  "lastIndexOfUpTo tx c k =
     (if k < length tx \<and> tx ! k = c then int k
      else if k = 0 then - 1 else lastIndexOfUpTo tx c (k - 1))"
  by (cases k) auto

lemmas scan_eval =
  detect_findingsFrom findingsFrom_unfold emitted_def nextCursor_def nextLine_def
  nextLineStart_def runLength_eval inAlphabet_iff isPair_def codePointAt_def
  startCharToCheck_def allHiddenChars_unit MIN_PATTERN_LENGTH_def suppressed_def Let_def
  zeroWidthChars_def bidiControlChars_def lastIndexOf_def lastIndexOfUpTo_eval

lemma patternFinding_fields [simp]:
  "index (patternFinding i l col ps) = i"
  "line (patternFinding i l col ps) = l"
  "column (patternFinding i l col ps) = col"
  "codePoint (patternFinding i l col ps) = - 1"
  "endIndex (patternFinding i l col ps) = Some (patternEndIndex ps)"
  "endLine (patternFinding i l col ps) = Some (patternEndLine ps)"
  "endColumn (patternFinding i l col ps) = Some (patternEndColumn ps)"
  "category (patternFinding i l col ps) = ''BinaryEncodingPattern''"
  by (simp_all add: patternFinding_def)

lemma charFinding_fields [simp]:
  "index (charFinding cp i l col info) = i"
  "line (charFinding cp i l col info) = l"
  "column (charFinding cp i l col info) = col"
  "codePoint (charFinding cp i l col info) = int cp"
  "endIndex (charFinding cp i l col info) = None"
  "endLine (charFinding cp i l col info) = None"
  "endColumn (charFinding cp i l col info) = None"
  "category (charFinding cp i l col info) = fst info"
  "message (charFinding cp i l col info) = snd info"
  by (simp_all add: charFinding_def)

lemma emitted_cases:
  assumes "f \<in> set (emitted cz em tx i ln c)"
  shows "(MIN_PATTERN_LENGTH \<le> runLength tx i \<and>
          f = patternFinding i ln (int i - c) (runPattern tx i ln c)) \<or>
         (\<not> MIN_PATTERN_LENGTH \<le> runLength tx i \<and>
          (\<exists>cp info. codePointAt tx i = Some cp \<and>
             allHiddenChars (startCharToCheck tx i cp) = Some info \<and>
             \<not> suppressed cz em tx i cp \<and>
             f = charFinding cp i ln (int i - c) info))"
proof (cases "MIN_PATTERN_LENGTH \<le> runLength tx i")
  case True
  with assms show ?thesis by (simp add: emitted_def)
next
  case False
  with assms show ?thesis
    by (cases "codePointAt tx i"; cases "allHiddenChars (startCharToCheck tx i (the (codePointAt tx i)))")
       (auto simp: emitted_def split: if_splits)
qed

lemma while_scanLoop:
  "while_option (\<lambda>st. fst st < length tx) (scanStep cz em tx) st = Some (scanLoop cz em tx st)"
proof (induction cz em tx st rule: scanLoop.induct)
  case (1 cz em tx st)
  show ?case
  proof (cases "fst st < length tx")
    case True
    then show ?thesis
      using "1.IH" by (subst while_option_unfold) (simp add: scanLoop.simps [of cz em tx st])
  next
    case False
    then show ?thesis
      by (subst while_option_unfold) (simp add: scanLoop.simps [of cz em tx st])
  qed
qed

lemma scanLoop_cursor: "length tx \<le> fst (scanLoop cz em tx st)"
proof (induction cz em tx st rule: scanLoop.induct)
  case (1 cz em tx st)
  then show ?case by (cases "fst st < length tx") (simp_all add: scanLoop.simps [of cz em tx st])
qed

subsection \<open>Runs and the indices the cursor visits\<close>

lemma runLength_members:
  assumes "i \<le> k" "k < i + runLength tx i"
  shows "k < length tx \<and> inAlphabet (tx ! k)"
proof -
  let ?xs = "drop i tx"
  have lt: "k - i < length (takeWhile inAlphabet ?xs)" using assms by (simp add: runLength_def)
  then have "takeWhile inAlphabet ?xs ! (k - i) \<in> set (takeWhile inAlphabet ?xs)" by simp
  then have p: "inAlphabet (takeWhile inAlphabet ?xs ! (k - i))" by (rule set_takeWhileD [THEN conjunct2])
  have l: "k - i < length ?xs" using lt length_takeWhile_le [of inAlphabet ?xs] by arith
  then have kl: "k < length tx" using assms by simp
  have "takeWhile inAlphabet ?xs ! (k - i) = ?xs ! (k - i)" using lt by (rule takeWhile_nth)
  also have "\<dots> = tx ! k" using assms kl by simp
  finally show ?thesis using p kl by simp
qed

lemma runLength_stop:
  assumes "j \<le> k" "k < length tx \<longrightarrow> \<not> inAlphabet (tx ! k)"
  shows "j + runLength tx j \<le> k"
proof (rule ccontr)
  assume "\<not> j + runLength tx j \<le> k"
  then have "k < j + runLength tx j" by simp
  from runLength_members [OF assms(1) this] assms(2) show False by simp
qed

lemma runLength_maximal:
  assumes "maximalRun tx s n" "s \<le> k" "k \<le> s + n"
  shows "runLength tx k = s + n - k"
proof -
  have len: "s + n \<le> length tx" and al: "list_all inAlphabet (take n (drop s tx))"
    and post: "s + n = length tx \<or> \<not> inAlphabet (tx ! (s + n))"
    using assms(1) by (simp_all add: maximalRun_def)
  have ge: "s + n - k \<le> runLength tx k"
  proof -
    have "drop k tx = take (s + n - k) (drop k tx) @ drop (s + n - k) (drop k tx)"
      by (rule append_take_drop_id [symmetric])
    moreover have "list_all inAlphabet (take (s + n - k) (drop k tx))"
    proof -
      have e1: "n - (k - s) = s + n - k" and e2: "k - s + s = k" using assms(2,3) by arith+
      have "take (s + n - k) (drop k tx) = drop (k - s) (take n (drop s tx))"
        by (simp only: drop_take drop_drop e1 e2)
      then show ?thesis using al by (auto simp: list_all_iff dest: in_set_dropD)
    qed
    ultimately have "takeWhile inAlphabet (drop k tx) =
        take (s + n - k) (drop k tx) @ takeWhile inAlphabet (drop (s + n - k) (drop k tx))"
      using takeWhile_append2 [of "take (s + n - k) (drop k tx)" inAlphabet
          "drop (s + n - k) (drop k tx)"]
      by (simp only: list_all_iff)
    then have "runLength tx k = length (take (s + n - k) (drop k tx)) +
         length (takeWhile inAlphabet (drop (s + n - k) (drop k tx)))"
      by (simp add: runLength_def)
    moreover have "length (take (s + n - k) (drop k tx)) = s + n - k"
      using len assms(2,3) by simp
    ultimately show ?thesis by simp
  qed
  have "k + runLength tx k \<le> s + n"
    using assms(3) post by (intro runLength_stop) auto
  with ge show ?thesis by simp
qed

lemma maximalRun_members:
  assumes "maximalRun tx s n" "s \<le> k" "k < s + n"
  shows "k < length tx \<and> inAlphabet (tx ! k)"
proof -
  have "runLength tx s = n" using runLength_maximal [OF assms(1), of s] by simp
  then show ?thesis using runLength_members [of s k tx] assms by simp
qed

lemma maximalRun_before:
  assumes "maximalRun tx s n" "j < s"
  shows "j + runLength tx j < s"
proof -
  have "\<not> inAlphabet (tx ! (s - 1))" using assms by (auto simp: maximalRun_def)
  then have "j + runLength tx j \<le> s - 1" using assms(2) by (intro runLength_stop) auto
  then show ?thesis using assms(2) by simp
qed

lemma reach_general:
  assumes "\<not> lowSurrogate (tx ! k)"
    and "\<forall>j < k. MIN_PATTERN_LENGTH \<le> runLength tx j \<longrightarrow> j + runLength tx j \<le> k"
  shows "\<forall>j < k. nextCursor tx j \<le> k"
proof (intro allI impI)
  fix j assume jk: "j < k"
  show "nextCursor tx j \<le> k"
  proof (cases "MIN_PATTERN_LENGTH \<le> runLength tx j")
    case True
    then show ?thesis using assms(2) jk by (simp add: nextCursor_def)
  next
    case False
    have "isPair tx j \<Longrightarrow> j + 1 \<noteq> k"
      using assms(1) by (auto simp: isPair_def lowSurrogate_def)
    then show ?thesis using False jk by (auto simp: nextCursor_def)
  qed
qed

lemma reach_not_alphabet:
  assumes "k < length tx" "\<not> inAlphabet (tx ! k)" "\<not> lowSurrogate (tx ! k)"
  shows "\<forall>j < k. nextCursor tx j \<le> k"
  using assms by (intro reach_general) (auto intro: runLength_stop)

lemma inAlphabet_not_low: "inAlphabet u \<Longrightarrow> \<not> lowSurrogate u"
  using inAlphabet_not_surrogate [of u] by (auto simp: lowSurrogate_def)

lemma reach_run_start:
  assumes "maximalRun tx s n"
  shows "\<forall>j < s. nextCursor tx j \<le> s"
proof (rule reach_general)
  show "\<not> lowSurrogate (tx ! s)"
    using maximalRun_members [OF assms, of s] assms inAlphabet_not_low by (auto simp: maximalRun_def)
  show "\<forall>j < s. MIN_PATTERN_LENGTH \<le> runLength tx j \<longrightarrow> j + runLength tx j \<le> s"
    using maximalRun_before [OF assms] by (auto intro: less_imp_le)
qed

lemma reach_short_run:
  assumes "maximalRun tx s n" "n < MIN_PATTERN_LENGTH" "s \<le> k" "k < s + n"
  shows "\<forall>j < k. nextCursor tx j \<le> k"
proof (rule reach_general)
  show "\<not> lowSurrogate (tx ! k)"
    using maximalRun_members [OF assms(1,3,4)] inAlphabet_not_low by simp
  show "\<forall>j < k. MIN_PATTERN_LENGTH \<le> runLength tx j \<longrightarrow> j + runLength tx j \<le> k"
  proof (intro allI impI)
    fix j assume jk: "j < k" and big: "MIN_PATTERN_LENGTH \<le> runLength tx j"
    show "j + runLength tx j \<le> k"
    proof (cases "j < s")
      case True
      then show ?thesis using maximalRun_before [OF assms(1) True] assms(3) by simp
    next
      case False
      then have "runLength tx j = s + n - j"
        using runLength_maximal [OF assms(1), of j] jk assms(4) by simp
      then show ?thesis using big assms(2) False by simp
    qed
  qed
qed

lemma detect_emitted:
  assumes "f \<in> set (detectHiddenCharacters cz em tx)"
  shows "index f < length tx \<and> (\<exists>ln c. f \<in> set (emitted cz em tx (index f) ln c))"
  using assms findingsFrom_emitted unfolding detect_findingsFrom by blast

lemma pattern_finding_span:
  assumes "f \<in> set (detectHiddenCharacters cz em tx)" "category f = ''BinaryEncodingPattern''"
  shows "MIN_PATTERN_LENGTH \<le> runLength tx (index f) \<and>
         endIndex f = Some (int (index f + runLength tx (index f)) - 1)"
proof -
  obtain ln c where e: "f \<in> set (emitted cz em tx (index f) ln c)"
    using detect_emitted [OF assms(1)] by blast
  from emitted_cases [OF e] show ?thesis
  proof (elim disjE conjE exE)
    assume "f = patternFinding (index f) ln (int (index f) - c) (runPattern tx (index f) ln c)"
      and m: "MIN_PATTERN_LENGTH \<le> runLength tx (index f)"
    then have "endIndex f = Some (patternEndIndex (runPattern tx (index f) ln c))"
      by (metis patternFinding_fields(5))
    then show ?thesis using m by (simp add: runPattern_def)
  next
    fix cp info
    assume i: "allHiddenChars (startCharToCheck tx (index f) cp) = Some info"
      and "f = charFinding cp (index f) ln (int (index f) - c) info"
    then have "category f = fst info" by (metis charFinding_fields(8))
    moreover have "fst info \<noteq> ''BinaryEncodingPattern''"
      using allHiddenChars_category [OF i]
      by (auto simp: ZERO_WIDTH_CATEGORY_def BIDI_CONTROL_CATEGORY_def
          DEPRECATED_TAG_CATEGORY_def VARIATION_SELECTOR_CATEGORY_def)
    ultimately show ?thesis using assms(2) by simp
  qed
qed

lemma single_finding_shape:
  assumes "f \<in> set (detectHiddenCharacters cz em tx)" "category f \<noteq> ''BinaryEncodingPattern''"
  shows "\<exists>cp. codePointAt tx (index f) = Some cp \<and>
           allHiddenChars (startCharToCheck tx (index f) cp) = Some (category f, message f) \<and>
           \<not> suppressed cz em tx (index f) cp \<and>
           codePoint f = int cp \<and> endIndex f = None \<and> endLine f = None \<and> endColumn f = None"
proof -
  obtain ln c where e: "f \<in> set (emitted cz em tx (index f) ln c)"
    using detect_emitted [OF assms(1)] by blast
  from emitted_cases [OF e] show ?thesis
  proof (elim disjE conjE exE)
    assume "f = patternFinding (index f) ln (int (index f) - c) (runPattern tx (index f) ln c)"
    then have "category f = ''BinaryEncodingPattern''" by (metis patternFinding_fields(8))
    with assms(2) show ?thesis by simp
  next
    fix cp info
    assume cp: "codePointAt tx (index f) = Some cp"
      and i: "allHiddenChars (startCharToCheck tx (index f) cp) = Some info"
      and s: "\<not> suppressed cz em tx (index f) cp"
      and "f = charFinding cp (index f) ln (int (index f) - c) info"
    then obtain i' l col where f: "f = charFinding cp i' l col info" by blast
    have "info = (category f, message f)" unfolding f by simp
    moreover have "codePoint f = int cp" "endIndex f = None" "endLine f = None" "endColumn f = None"
      unfolding f by simp_all
    ultimately show ?thesis using cp i s by auto
  qed
qed

lemma pattern_not_in_short_run:
  assumes run: "maximalRun tx s n" and short: "n < MIN_PATTERN_LENGTH"
    and f: "f \<in> set (detectHiddenCharacters cz em tx)"
    and cat: "category f = ''BinaryEncodingPattern''"
    and k: "s \<le> k" "k < s + n"
  shows "\<not> (index f \<le> k \<and> k < index f + runLength tx (index f))"
proof
  assume c: "index f \<le> k \<and> k < index f + runLength tx (index f)"
  have big: "MIN_PATTERN_LENGTH \<le> runLength tx (index f)"
    using pattern_finding_span [OF f cat] by simp
  have ge: "s \<le> index f"
  proof (rule ccontr)
    assume "\<not> s \<le> index f"
    then have "index f < s" by simp
    from maximalRun_before [OF run this] c k show False by simp
  qed
  then have "runLength tx (index f) = s + n - index f"
    using runLength_maximal [OF run, of "index f"] c k by simp
  with big short ge show False by simp
qed

subsection \<open>The findings at a visited index\<close>

lemma single_unit_lookup:
  assumes "k < length tx" "\<not> isPair tx k"
  shows "codePointAt tx k = Some (unat (tx ! k))"
    and "startCharToCheck tx k (unat (tx ! k)) = [tx ! k]"
  using assms unat_unit_bound [of "tx ! k"]
  by (simp_all add: codePointAt_single startCharToCheck_def)

lemma inAlphabet_not_pair: "inAlphabet (tx ! k) \<Longrightarrow> \<not> isPair tx k"
  using inAlphabet_not_surrogate [of "tx ! k"] by (auto simp: isPair_def)

lemma findings_at_single:
  assumes k: "k < length tx" and reach: "\<forall>j < k. nextCursor tx j \<le> k"
    and short: "runLength tx k < MIN_PATTERN_LENGTH" and np: "\<not> isPair tx k"
  shows "\<exists>ln c. filter (\<lambda>f. index f = k) (detectHiddenCharacters cz em tx) =
           (case allHiddenChars [tx ! k] of
              None \<Rightarrow> []
            | Some info \<Rightarrow>
                if suppressed cz em tx k (unat (tx ! k)) then []
                else [charFinding (unat (tx ! k)) k ln (int k - c) info])"
proof -
  have nc: "nextCursor tx k = k + 1" using short np by (simp add: nextCursor_def)
  have eq: "(\<lambda>f. k \<le> index f \<and> index f < nextCursor tx k) = (\<lambda>f::HiddenCharacterInfo. index f = k)"
    unfolding nc by auto
  obtain ln c where
    "filter (\<lambda>f. k \<le> index f \<and> index f < nextCursor tx k) (detectHiddenCharacters cz em tx)
       = emitted cz em tx k ln c"
    using findings_window [OF k reach] by blast
  then have "filter (\<lambda>f. index f = k) (detectHiddenCharacters cz em tx) = emitted cz em tx k ln c"
    unfolding eq .
  moreover have "emitted cz em tx k ln c =
           (case allHiddenChars [tx ! k] of
              None \<Rightarrow> []
            | Some info \<Rightarrow>
                if suppressed cz em tx k (unat (tx ! k)) then []
                else [charFinding (unat (tx ! k)) k ln (int k - c) info])"
    using short by (simp add: emitted_def single_unit_lookup [OF k np])
  ultimately show ?thesis by metis
qed

lemma findings_at_pair:
  assumes pair: "isPair tx k" and cp: "codePointAt tx k = Some cp"
  shows "\<exists>ln c. filter (\<lambda>f. k \<le> index f \<and> index f < k + 2) (detectHiddenCharacters cz em tx) =
           (case allHiddenChars (fromCodePoint cp) of
              None \<Rightarrow> []
            | Some info \<Rightarrow> [charFinding cp k ln (int k - c) info])"
proof -
  have k: "k < length tx" using pair by (simp add: isPair_def)
  have big: "0xFFFF < cp" using codePointAt_large_iff [OF cp] pair by simp
  have hi: "\<not> inAlphabet (tx ! k)" using inAlphabet_not_pair pair by blast
  have nl: "\<not> lowSurrogate (tx ! k)" using pair by (simp add: isPair_def lowSurrogate_def)
  have r0: "runLength tx k = 0" using hi k by (simp add: runLength_step)
  have nc: "nextCursor tx k = k + 2" using pair r0 by (simp add: nextCursor_def MIN_PATTERN_LENGTH_def)
  obtain ln c where
    "filter (\<lambda>f. k \<le> index f \<and> index f < nextCursor tx k) (detectHiddenCharacters cz em tx)
       = emitted cz em tx k ln c"
    using findings_window [OF k reach_not_alphabet [OF k hi nl]] by blast
  then have "filter (\<lambda>f. k \<le> index f \<and> index f < k + 2) (detectHiddenCharacters cz em tx)
       = emitted cz em tx k ln c"
    unfolding nc .
  moreover have "emitted cz em tx k ln c =
           (case allHiddenChars (fromCodePoint cp) of
              None \<Rightarrow> []
            | Some info \<Rightarrow> [charFinding cp k ln (int k - c) info])"
    using big r0
    by (simp add: emitted_def cp startCharToCheck_def suppressed_def MIN_PATTERN_LENGTH_def
        split: option.splits)
  ultimately show ?thesis by metis
qed

subsection \<open>Run absorption\<close>

lemma long_run_one_finding:
  assumes run: "maximalRun tx s n" and long: "MIN_PATTERN_LENGTH \<le> n"
  shows "\<exists>f. filter (\<lambda>f. s \<le> index f \<and> index f < s + n) (detectHiddenCharacters cz em tx) = [f] \<and>
             category f = ''BinaryEncodingPattern'' \<and> index f = s \<and>
             endIndex f = Some (int (s + n) - 1)"
proof -
  have rl: "runLength tx s = n" using runLength_maximal [OF run, of s] by simp
  have sl: "s < length tx" using run by (simp add: maximalRun_def)
  have nc: "nextCursor tx s = s + n" using rl long by (simp add: nextCursor_def)
  obtain ln c where
    "filter (\<lambda>f. s \<le> index f \<and> index f < nextCursor tx s) (detectHiddenCharacters cz em tx)
       = emitted cz em tx s ln c"
    using findings_window [OF sl reach_run_start [OF run]] by blast
  then have "filter (\<lambda>f. s \<le> index f \<and> index f < s + n) (detectHiddenCharacters cz em tx)
       = [patternFinding s ln (int s - c) (runPattern tx s ln c)]"
    unfolding nc using rl long by (simp add: emitted_def)
  moreover have "endIndex (patternFinding s ln (int s - c) (runPattern tx s ln c))
       = Some (int (s + n) - 1)"
    by (simp add: runPattern_def rl)
  ultimately show ?thesis
    by (intro exI [of _ "patternFinding s ln (int s - c) (runPattern tx s ln c)"]) simp
qed

lemma short_run_findings:
  assumes run: "maximalRun tx s n" and short: "n < MIN_PATTERN_LENGTH"
    and f: "f \<in> set (detectHiddenCharacters cz em tx)"
    and w: "s \<le> index f" "index f < s + n"
  shows "category f \<noteq> ''BinaryEncodingPattern'' \<and>
         allHiddenChars [tx ! index f] = Some (category f, message f) \<and>
         codePoint f = int (unat (tx ! index f)) \<and> endIndex f = None"
proof -
  have np: "category f \<noteq> ''BinaryEncodingPattern''"
  proof
    assume c: "category f = ''BinaryEncodingPattern''"
    have "0 < runLength tx (index f)"
      using pattern_finding_span [OF f c] by (simp add: MIN_PATTERN_LENGTH_def)
    then show False using pattern_not_in_short_run [OF run short f c w] by simp
  qed
  have kl: "index f < length tx" and al: "inAlphabet (tx ! index f)"
    using maximalRun_members [OF run w] by simp_all
  note u = single_unit_lookup [OF kl inAlphabet_not_pair [OF al]]
  from single_finding_shape [OF f np] obtain cp where
    cp: "codePointAt tx (index f) = Some cp"
    and i: "allHiddenChars (startCharToCheck tx (index f) cp) = Some (category f, message f)"
    and r: "codePoint f = int cp" "endIndex f = None"
    by blast
  have "cp = unat (tx ! index f)" using cp u(1) by simp
  then show ?thesis using np i r u(2) by simp
qed

lemma strict_sorted_distinct: "sorted_wrt (<) (xs :: nat list) \<Longrightarrow> distinct xs"
  by (induction xs) auto

lemma short_run_count:
  assumes run: "maximalRun tx s n" and short: "n < MIN_PATTERN_LENGTH"
  shows "length (filter (\<lambda>f. s \<le> index f \<and> index f < s + n) (detectHiddenCharacters cz em tx))
           \<le> length (filter (\<lambda>u. allHiddenChars [u] \<noteq> None) (take n (drop s tx)))"
proof -
  let ?fs = "detectHiddenCharacters cz em tx"
  let ?F = "filter (\<lambda>f. s \<le> index f \<and> index f < s + n) ?fs"
  let ?xs = "take n (drop s tx)"
  let ?P = "\<lambda>u. allHiddenChars [u] \<noteq> None"
  let ?K = "{i. i < length ?xs \<and> ?P (?xs ! i)}"
  have "s + n \<le> length tx" using run by (simp add: maximalRun_def)
  then have len: "length ?xs = n" by simp
  have d: "distinct (map index ?F)"
    using findingsFrom_sorted [of cz em tx 0 1 0, folded detect_findingsFrom]
    by (intro distinct_map_filter strict_sorted_distinct)
  have sub: "set (map index ?F) \<subseteq> (\<lambda>i. s + i) ` ?K"
  proof
    fix k assume "k \<in> set (map index ?F)"
    then obtain f where f: "f \<in> set ?fs" and w: "s \<le> index f" "index f < s + n" and k: "k = index f"
      by auto
    from short_run_findings [OF run short f w] have "?P (tx ! k)" using k by simp
    moreover have "?xs ! (k - s) = tx ! k" using w k len run by (simp add: maximalRun_def)
    ultimately have "k - s \<in> ?K" using w k len by simp
    then show "k \<in> (\<lambda>i. s + i) ` ?K" using w k by force
  qed
  have "length ?F = card (set (map index ?F))" using distinct_card [OF d] by simp
  also have "\<dots> \<le> card ((\<lambda>i. s + i) ` ?K)" using sub by (intro card_mono) auto
  also have "\<dots> \<le> card ?K" by (intro card_image_le) auto
  also have "\<dots> = length (filter ?P ?xs)" by (simp add: length_filter_conv_card)
  finally show ?thesis .
qed

lemma alphabet_registry_zero_width:
  assumes "inAlphabet u" "allHiddenChars [u] = Some info"
  shows "info = (ZERO_WIDTH_CATEGORY, ZERO_WIDTH_MESSAGE)"
  using assms
  by (auto simp: inAlphabet_iff allHiddenChars_unit zeroWidthChars_def bidiControlChars_def
      split: if_splits)

lemma short_run_member:
  assumes run: "maximalRun tx s n" and short: "n < MIN_PATTERN_LENGTH"
    and k: "s \<le> k" "k < s + n" and reg: "allHiddenChars [tx ! k] = Some info"
  shows "if tx ! k = 0x200D \<and> skipZWJ cz em tx k
         then filter (\<lambda>f. index f = k) (detectHiddenCharacters cz em tx) = []
         else (\<exists>f. filter (\<lambda>f. index f = k) (detectHiddenCharacters cz em tx) = [f] \<and>
                 codePoint f = int (unat (tx ! k)) \<and> index f = k \<and>
                 category f = ''Zero-Width'' \<and> message f = ZERO_WIDTH_MESSAGE \<and>
                 endIndex f = None \<and> endLine f = None \<and> endColumn f = None)"
proof -
  have kl: "k < length tx" and al: "inAlphabet (tx ! k)"
    using maximalRun_members [OF run k] by simp_all
  have rl: "runLength tx k < MIN_PATTERN_LENGTH"
    using runLength_maximal [OF run, of k] k short by simp
  have info: "info = (ZERO_WIDTH_CATEGORY, ZERO_WIDTH_MESSAGE)"
    using alphabet_registry_zero_width [OF al reg] .
  have z: "unat (tx ! k) = 0x200D \<longleftrightarrow> tx ! k = 0x200D" by (simp add: word_unat_eq_iff)
  have sup: "suppressed cz em tx k (unat (tx ! k)) = (tx ! k = 0x200D \<and> skipZWJ cz em tx k)"
    using al z by (auto simp: suppressed_def inAlphabet_iff)
  obtain ln c where w: "filter (\<lambda>f. index f = k) (detectHiddenCharacters cz em tx) =
           (if suppressed cz em tx k (unat (tx ! k)) then []
            else [charFinding (unat (tx ! k)) k ln (int k - c) info])"
    using findings_at_single [OF kl reach_short_run [OF run short k] rl inAlphabet_not_pair [OF al],
        where cz = cz and em = em] reg
    by auto
  show ?thesis
  proof (cases "tx ! k = 0x200D \<and> skipZWJ cz em tx k")
    case True
    then show ?thesis using w sup by simp
  next
    case False
    then have "filter (\<lambda>f. index f = k) (detectHiddenCharacters cz em tx) =
        [charFinding (unat (tx ! k)) k ln (int k - c) info]"
      using w sup by simp
    then have "\<exists>f. filter (\<lambda>f. index f = k) (detectHiddenCharacters cz em tx) = [f] \<and>
                 codePoint f = int (unat (tx ! k)) \<and> index f = k \<and>
                 category f = ''Zero-Width'' \<and> message f = ZERO_WIDTH_MESSAGE \<and>
                 endIndex f = None \<and> endLine f = None \<and> endColumn f = None"
      by (intro exI [of _ "charFinding (unat (tx ! k)) k ln (int k - c) info"])
         (simp add: info ZERO_WIDTH_CATEGORY_def)
    then show ?thesis using False by (simp only: if_False)
  qed
qed

lemma vs16_finding_character: "character (charFinding 0xFE0F k ln col info) = ''U+FE0F''"
  by (simp add: charFinding_def padStart4_def toHexUpper.simps hexDigit_def)

lemma zwj_finding_character: "character (charFinding 0x200D k ln col info) = ''U+200D''"
  by (simp add: charFinding_def padStart4_def toHexUpper.simps hexDigit_def)


lemma short_run_no_pattern_overlap:
  assumes run: "maximalRun tx s n" and short: "n < MIN_PATTERN_LENGTH"
    and f: "f \<in> set (detectHiddenCharacters cz em tx)" and e: "endIndex f = Some e"
  shows "e < int s \<or> s + n \<le> index f"
proof (rule ccontr)
  assume a: "\<not> (e < int s \<or> s + n \<le> index f)"
  have cat: "category f = ''BinaryEncodingPattern''"
    using single_finding_shape [OF f] e by auto
  have ev: "e = int (index f + runLength tx (index f)) - 1"
    using pattern_finding_span [OF f cat] e by simp
  have n: "0 < n" using run by (simp add: maximalRun_def)
  have big: "0 < runLength tx (index f)"
    using pattern_finding_span [OF f cat] by (simp add: MIN_PATTERN_LENGTH_def)
  let ?k = "max (index f) s"
  have "s \<le> ?k" "?k < s + n" "index f \<le> ?k" "?k < index f + runLength tx (index f)"
    using a ev n big by auto
  then show False using pattern_not_in_short_run [OF run short f cat, of ?k] by simp
qed

lemma pattern_finding_single_line:
  assumes "f \<in> set (detectHiddenCharacters cz em tx)" "endLine f = Some l"
  shows "l = line f"
proof -
  obtain ln c where e: "f \<in> set (emitted cz em tx (index f) ln c)"
    using detect_emitted [OF assms(1)] by blast
  from emitted_cases [OF e] consider
    (pattern) i col where "f = patternFinding i ln col (runPattern tx i ln c)"
  | (single) cp i l' col info where "f = charFinding cp i l' col info"
    by blast
  then show ?thesis
  proof cases
    case pattern
    then show ?thesis using assms(2) by (simp add: runPattern_def)
  next
    case single
    then show ?thesis using assms(2) by simp
  qed
qed

subsection \<open>The heuristics against the preceding base scalar value\<close>

lemma unat_vs16_iff: "unat (u :: 16 word) = 0xFE0F \<longleftrightarrow> u = 0xFE0F"
  by (simp add: word_unat_eq_iff)

lemma codePointAt_vs16_iff:
  "codePointAt tx i = Some 0xFE0F \<longleftrightarrow> i < length tx \<and> tx ! i = 0xFE0F"
proof (cases "i < length tx")
  case False
  then show ?thesis by (simp add: codePointAt_def)
next
  case True
  show ?thesis
  proof (cases "isPair tx i")
    case True
    then have "unat (tx ! i) \<noteq> 0xFE0F" by (auto simp: isPair_def)
    then show ?thesis using True codePointAt_pair [OF True] by (auto simp: unat_vs16_iff)
  next
    case False
    then show ?thesis using True by (simp add: codePointAt_single unat_vs16_iff)
  qed
qed

lemma codePointAt_before_non_low:
  assumes "r < length tx" "r + 1 < length tx \<longrightarrow> \<not> lowSurrogate (tx ! (r + 1))"
  shows "codePointAt tx r = Some (unat (tx ! r))"
  using assms by (intro codePointAt_single) (auto simp: isPair_def lowSurrogate_def)

lemma base_at:
  assumes r: "r < length tx" and nl: "r + 1 < length tx \<longrightarrow> \<not> lowSurrogate (tx ! (r + 1))"
  shows "previousBaseStep2 tx r \<noteq> - 1 \<and>
         codePointAt tx (nat (previousBaseStep2 tx r)) = scalarBefore tx (r + 1)"
proof (cases "0 < r \<and> lowSurrogate (tx ! r) \<and>
         0xD800 \<le> unat (tx ! (r - 1)) \<and> unat (tx ! (r - 1)) \<le> 0xDBFF")
  case True
  then have pair: "isPair tx (r - 1)" using r by (simp add: isPair_def lowSurrogate_def)
  have rr: "r - 1 < length tx" using r by simp
  have cp: "codePointAt tx (r - 1) =
      Some ((unat (tx ! (r - 1)) - 0xD800) * 0x400 + (unat (tx ! r) - 0xDC00) + 0x10000)"
    using codePointAt_pair [OF pair] True by simp
  have p: "previousBaseStep2 tx r = int r - 1"
    using True r rr by (simp add: previousBaseStep2_def charCodeAt_def lowSurrogate_def)
  have n: "nat (int r - 1) = r - 1" by simp
  have s: "scalarBefore tx (r + 1) =
      Some ((unat (tx ! (r - 1)) - 0xD800) * 0x400 + (unat (tx ! r) - 0xDC00) + 0x10000)"
    using True by (simp add: scalarBefore_def)
  show ?thesis unfolding p n cp s using True by simp
next
  case False
  have cp: "codePointAt tx r = Some (unat (tx ! r))"
    using codePointAt_before_non_low [OF r nl] .
  have p: "previousBaseStep2 tx r = int r"
    using False r by (auto simp: previousBaseStep2_def charCodeAt_def lowSurrogate_def)
  have s: "scalarBefore tx (r + 1) = Some (unat (tx ! r))"
    using False by (auto simp: scalarBefore_def)
  show ?thesis unfolding p s using cp by simp
qed

lemma previous_base_refines:
  assumes k: "k < length tx" and nl: "\<not> lowSurrogate (tx ! k)"
  shows "(if getPreviousBaseCharStartIndex tx k \<noteq> - 1
          then codePointAt tx (nat (getPreviousBaseCharStartIndex tx k)) else None)
         = precedingBaseScalar tx k"
proof (cases "k = 0")
  case True
  then show ?thesis
    by (simp add: getPreviousBaseCharStartIndex_def precedingBaseScalar_def scalarBefore_def)
next
  case k0: False
  show ?thesis
  proof (cases "tx ! (k - 1) = 0xFE0F")
    case vs: True
    then have c: "codePointAt tx (k - 1) = Some 0xFE0F" using k by (simp add: codePointAt_vs16_iff)
    have ps: "precedingBaseScalar tx k = scalarBefore tx (k - 1)"
      using vs k0 by (simp add: precedingBaseScalar_def)
    show ?thesis
    proof (cases "k = 1")
      case True
      then have "getPreviousBaseCharStartIndex tx k = - 1"
        using c by (simp add: getPreviousBaseCharStartIndex_def)
      then show ?thesis unfolding ps using True by (simp add: scalarBefore_def)
    next
      case False
      then have r: "k - 2 < length tx" and e: "k - 2 + 1 = k - 1" using k k0 by simp_all
      have nl': "k - 2 + 1 < length tx \<longrightarrow> \<not> lowSurrogate (tx ! (k - 2 + 1))"
        unfolding e using vs by (simp add: lowSurrogate_def)
      have "k - 1 - 1 = k - 2" by simp
      then have g: "getPreviousBaseCharStartIndex tx k = previousBaseStep2 tx (k - 2)"
        using c k0 False by (simp add: getPreviousBaseCharStartIndex_def numeral_2_eq_2)
      show ?thesis unfolding g ps using base_at [OF r nl'] e by simp
    qed
  next
    case nvs: False
    then have c: "codePointAt tx (k - 1) \<noteq> Some 0xFE0F" by (simp add: codePointAt_vs16_iff)
    have ps: "precedingBaseScalar tx k = scalarBefore tx k"
      using nvs by (simp add: precedingBaseScalar_def)
    have r: "k - 1 < length tx" and e: "k - 1 + 1 = k" using k k0 by simp_all
    have nl': "k - 1 + 1 < length tx \<longrightarrow> \<not> lowSurrogate (tx ! (k - 1 + 1))"
      unfolding e using nl by simp
    have g: "getPreviousBaseCharStartIndex tx k = previousBaseStep2 tx (k - 1)"
      using c k0 by (simp add: getPreviousBaseCharStartIndex_def)
    show ?thesis unfolding g ps using base_at [OF r nl'] e by simp
  qed
qed

lemma skipVS16_spec:
  assumes "cz 0" "k < length tx" "\<not> lowSurrogate (tx ! k)"
  shows "skipVS16 cz tx k = (case precedingBaseScalar tx k of None \<Rightarrow> False | Some p \<Rightarrow> \<not> cz p)"
proof -
  note r = previous_base_refines [OF assms(2,3)]
  show ?thesis
  proof (cases "precedingBaseScalar tx k")
    case None
    then show ?thesis using r by (auto simp: skipVS16_def Let_def split: if_splits)
  next
    case (Some p)
    then show ?thesis using r assms(1)
      by (cases "p = 0") (auto simp: skipVS16_def Let_def split: if_splits)
  qed
qed

lemma skipZWJ_spec:
  assumes "cz 0" "\<not> em 0" "k < length tx" "\<not> lowSurrogate (tx ! k)"
  shows "skipZWJ cz em tx k =
     ((case precedingBaseScalar tx k of None \<Rightarrow> False | Some p \<Rightarrow> em p) \<and>
      (case codePointAt tx (k + 1) of None \<Rightarrow> False | Some q \<Rightarrow> q = 0xFE0F \<or> \<not> cz q))"
proof -
  note r = previous_base_refines [OF assms(3,4)]
  have n: "(if k + 1 < length tx then codePointAt tx (k + 1) else None) = codePointAt tx (k + 1)"
    by (simp add: codePointAt_def)
  have a: "(case (if getPreviousBaseCharStartIndex tx k \<noteq> - 1
                  then codePointAt tx (nat (getPreviousBaseCharStartIndex tx k)) else None) of
              None \<Rightarrow> False | Some c \<Rightarrow> if c \<noteq> 0 then em c else False)
           = (case precedingBaseScalar tx k of None \<Rightarrow> False | Some p \<Rightarrow> em p)"
  proof (cases "precedingBaseScalar tx k")
    case None
    then show ?thesis unfolding r by simp
  next
    case (Some p)
    then show ?thesis unfolding r using assms(2) by (cases "p = 0") simp_all
  qed
  have b: "(case codePointAt tx (k + 1) of
              None \<Rightarrow> False | Some c \<Rightarrow> if c \<noteq> 0 then c = 0xFE0F \<or> \<not> cz c else False)
           = (case codePointAt tx (k + 1) of None \<Rightarrow> False | Some q \<Rightarrow> q = 0xFE0F \<or> \<not> cz q)"
  proof (cases "codePointAt tx (k + 1)")
    case None
    then show ?thesis by simp
  next
    case (Some q)
    then show ?thesis using assms(1) by (cases "q = 0") simp_all
  qed
  show ?thesis
    unfolding skipZWJ_def Let_def n a b ..
qed

subsection \<open>The examples of the test suite\<close>

text \<open>
  The texts of \<^verbatim>\<open>detector.test.ts\<close>, evaluated on the model. The expected values of the
  suite are reproduced, except in the fourth test: it expects a finding for the VS16 that
  follows the letter \<open>d\<close>, which the heuristic suppresses as soon as \<open>d\<close> is not a control or
  separator character.
\<close>

lemmas finding_eval =
  charFinding_def toHexUpper.simps padStart4_def hexDigit_def
  skipVS16_def skipZWJ_def getPreviousBaseCharStartIndex_def previousBaseStep2_def charCodeAt_def

lemmas heuristic_eval =
  skipVS16_def skipZWJ_def getPreviousBaseCharStartIndex_def previousBaseStep2_def charCodeAt_def
  sampleControlOrSeparator_def sampleEmoji_def

lemma test_empty: "detectHiddenCharacters cz em [] = []"
  by (simp add: scan_eval)

lemma test_no_hidden:
  "detectHiddenCharacters cz em
     [0x48, 0x65, 0x6C, 0x6C, 0x6F, 0x20, 0x77, 0x6F, 0x72, 0x6C, 0x64] = []"
  by (simp add: scan_eval)

lemma test_single_zero_width_space:
  "detectHiddenCharacters cz em
     [0x48, 0x65, 0x6C, 0x6C, 0x6F, 0x200B, 0x77, 0x6F, 0x72, 0x6C, 0x64] =
   [\<lparr>character = ''U+200B'', codePoint = 0x200B, index = 5, line = 1, column = 5,
     endIndex = None, endLine = None, endColumn = None,
     category = ZERO_WIDTH_CATEGORY, message = ZERO_WIDTH_MESSAGE\<rparr>]"
  by (simp add: scan_eval finding_eval)

lemma test_same_line:
  assumes "\<not> cz 0x64"
  shows "map (\<lambda>f. (character f, index f, line f, column f, category f))
     (detectHiddenCharacters cz em
       [0x48, 0x65, 0x6C, 0x200B, 0x6C, 0x6F, 0x202A, 0x77, 0x6F, 0x72, 0x6C, 0x64, 0xFE0F]) =
   [(''U+200B'', 3, 1, 3, ZERO_WIDTH_CATEGORY), (''U+202A'', 6, 1, 6, BIDI_CONTROL_CATEGORY)]"
  using assms by (simp add: scan_eval finding_eval)

lemma test_begin_and_end:
  "map (\<lambda>f. (character f, index f, line f, column f, category f))
     (detectHiddenCharacters cz em
       [0xFEFF, 0x48, 0x65, 0x6C, 0x6C, 0x6F, 0x20, 0x77, 0x6F, 0x72, 0x6C, 0x64, 0x200D]) =
   [(''U+FEFF'', 0, 1, 0, ZERO_WIDTH_CATEGORY), (''U+200D'', 12, 1, 12, ZERO_WIDTH_CATEGORY)]"
  by (simp add: scan_eval finding_eval)

lemma test_lines_and_columns:
  "map (\<lambda>f. (character f, index f, line f, column f, category f))
     (detectHiddenCharacters cz em
       [0x4C, 0x69, 0x6E, 0x65, 0x20, 0x31, 0x0A,
        0x4C, 0x69, 0x6E, 0x65, 0x20, 0x32, 0x20, 0x68, 0x61, 0x73, 0x20, 0x200C,
        0x61, 0x20, 0x5A, 0x57, 0x4E, 0x4A, 0x0A,
        0x4C, 0x69, 0x6E, 0x65, 0x2066, 0x33]) =
   [(''U+200C'', 18, 2, 11, ZERO_WIDTH_CATEGORY), (''U+2066'', 30, 3, 4, BIDI_CONTROL_CATEGORY)]"
  by (simp add: scan_eval finding_eval)

lemma test_surrogate_pair:
  "detectHiddenCharacters cz em
     [0x54, 0x65, 0x73, 0x74, 0x20, 0xDB40, 0xDD00, 0x20, 0x56, 0x53, 0x31, 0x37] =
   [\<lparr>character = ''U+E0100'', codePoint = 0xE0100, index = 5, line = 1, column = 5,
     endIndex = None, endLine = None, endColumn = None,
     category = VARIATION_SELECTOR_CATEGORY, message = VARIATION_SELECTOR_MESSAGE\<rparr>]"
  by (simp add: scan_eval finding_eval allHiddenChars_supp)

lemma test_deprecated_tag:
  "detectHiddenCharacters cz em
     [0x54, 0x61, 0x67, 0x20, 0xDB40, 0xDC01, 0x20, 0x68, 0x65, 0x72, 0x65] =
   [\<lparr>character = ''U+E0001'', codePoint = 0xE0001, index = 4, line = 1, column = 4,
     endIndex = None, endLine = None, endColumn = None,
     category = DEPRECATED_TAG_CATEGORY, message = DEPRECATED_TAG_MESSAGE\<rparr>]"
  by (simp add: scan_eval finding_eval allHiddenChars_supp)

section \<open>Properties of the scanner\<close>

text \<open>
  C1. A maximal run of alphabet code units of length at least 8 yields exactly one finding
  whose index lies in the run: a \<open>BinaryEncodingPattern\<close> finding that starts at the first
  unit and ends at the last one. A maximal run shorter than 8 yields no pattern finding
  (none starts in it, none overlaps it); the findings whose index lies in it are
  single-character findings of run members that are in the category table, at most one per
  such member. "One per member" holds with one exception, made by the joiner heuristic: a
  member of the table has exactly one finding, a Zero-Width one, unless it is a zero-width
  joiner for which \<open>skipZWJ\<close> holds, and then it has none. With U+0000 a control
  character without the Emoji property, \<open>skipZWJ\<close> holds exactly when the preceding base
  scalar value has the Emoji or Emoji_Modifier_Base property and the scalar value after the
  joiner is VS16 or no control or separator character. The counterexample is the text
  \<^verbatim>\<open>1\u200DA\<close>: the run is the joiner alone, it is in the table, and the scan is empty.
\<close>

theorem run_absorption:
  assumes run: "maximalRun tx s n"
  shows "(MIN_PATTERN_LENGTH \<le> n \<longrightarrow>
            (\<exists>f. filter (\<lambda>f. s \<le> index f \<and> index f < s + n) (detectHiddenCharacters cz em tx) = [f] \<and>
                 category f = ''BinaryEncodingPattern'' \<and> index f = s \<and>
                 endIndex f = Some (int (s + n) - 1))) \<and>
         (n < MIN_PATTERN_LENGTH \<longrightarrow>
            (\<forall>f \<in> set (detectHiddenCharacters cz em tx).
               (\<forall>e. endIndex f = Some e \<longrightarrow> e < int s \<or> s + n \<le> index f) \<and>
               (s \<le> index f \<and> index f < s + n \<longrightarrow>
                  category f \<noteq> ''BinaryEncodingPattern'' \<and>
                  allHiddenChars [tx ! index f] = Some (category f, message f) \<and>
                  codePoint f = int (unat (tx ! index f)) \<and> endIndex f = None)) \<and>
            length (filter (\<lambda>f. s \<le> index f \<and> index f < s + n) (detectHiddenCharacters cz em tx))
              \<le> length (filter (\<lambda>u. allHiddenChars [u] \<noteq> None) (take n (drop s tx))) \<and>
            length (filter (\<lambda>u. allHiddenChars [u] \<noteq> None) (take n (drop s tx))) \<le> n \<and>
            (\<forall>k. s \<le> k \<and> k < s + n \<and> allHiddenChars [tx ! k] \<noteq> None \<longrightarrow>
               (if tx ! k = 0x200D \<and> skipZWJ cz em tx k
                then filter (\<lambda>f. index f = k) (detectHiddenCharacters cz em tx) = []
                else (\<exists>f. filter (\<lambda>f. index f = k) (detectHiddenCharacters cz em tx) = [f] \<and>
                        codePoint f = int (unat (tx ! k)) \<and> index f = k \<and>
                        category f = ''Zero-Width'' \<and> message f = ZERO_WIDTH_MESSAGE \<and>
                        endIndex f = None \<and> endLine f = None \<and> endColumn f = None)))) \<and>
         (cz 0 \<and> \<not> em 0 \<longrightarrow>
            (\<forall>k. s \<le> k \<and> k < s + n \<and> tx ! k = 0x200D \<longrightarrow>
               skipZWJ cz em tx k =
                 ((case precedingBaseScalar tx k of None \<Rightarrow> False | Some p \<Rightarrow> em p) \<and>
                  (case codePointAt tx (k + 1) of
                     None \<Rightarrow> False | Some q \<Rightarrow> q = 0xFE0F \<or> \<not> cz q))))"
proof (intro conjI impI)
  assume "MIN_PATTERN_LENGTH \<le> n"
  then show "\<exists>f. filter (\<lambda>f. s \<le> index f \<and> index f < s + n) (detectHiddenCharacters cz em tx) = [f] \<and>
                 category f = ''BinaryEncodingPattern'' \<and> index f = s \<and>
                 endIndex f = Some (int (s + n) - 1)"
    by (rule long_run_one_finding [OF run])
next
  assume short: "n < MIN_PATTERN_LENGTH"
  show "\<forall>f \<in> set (detectHiddenCharacters cz em tx).
               (\<forall>e. endIndex f = Some e \<longrightarrow> e < int s \<or> s + n \<le> index f) \<and>
               (s \<le> index f \<and> index f < s + n \<longrightarrow>
                  category f \<noteq> ''BinaryEncodingPattern'' \<and>
                  allHiddenChars [tx ! index f] = Some (category f, message f) \<and>
                  codePoint f = int (unat (tx ! index f)) \<and> endIndex f = None)"
    using short_run_no_pattern_overlap [OF run short] short_run_findings [OF run short]
    by blast
  show "length (filter (\<lambda>f. s \<le> index f \<and> index f < s + n) (detectHiddenCharacters cz em tx))
          \<le> length (filter (\<lambda>u. allHiddenChars [u] \<noteq> None) (take n (drop s tx)))"
    by (rule short_run_count [OF run short])
  show "\<forall>k. s \<le> k \<and> k < s + n \<and> allHiddenChars [tx ! k] \<noteq> None \<longrightarrow>
               (if tx ! k = 0x200D \<and> skipZWJ cz em tx k
                then filter (\<lambda>f. index f = k) (detectHiddenCharacters cz em tx) = []
                else (\<exists>f. filter (\<lambda>f. index f = k) (detectHiddenCharacters cz em tx) = [f] \<and>
                        codePoint f = int (unat (tx ! k)) \<and> index f = k \<and>
                        category f = ''Zero-Width'' \<and> message f = ZERO_WIDTH_MESSAGE \<and>
                        endIndex f = None \<and> endLine f = None \<and> endColumn f = None))"
  proof (intro allI impI)
    fix k assume a: "s \<le> k \<and> k < s + n \<and> allHiddenChars [tx ! k] \<noteq> None"
    then obtain info where i: "allHiddenChars [tx ! k] = Some info" by auto
    from a have k: "s \<le> k" "k < s + n" by simp_all
    show "if tx ! k = 0x200D \<and> skipZWJ cz em tx k
                then filter (\<lambda>f. index f = k) (detectHiddenCharacters cz em tx) = []
                else (\<exists>f. filter (\<lambda>f. index f = k) (detectHiddenCharacters cz em tx) = [f] \<and>
                        codePoint f = int (unat (tx ! k)) \<and> index f = k \<and>
                        category f = ''Zero-Width'' \<and> message f = ZERO_WIDTH_MESSAGE \<and>
                        endIndex f = None \<and> endLine f = None \<and> endColumn f = None)"
      by (rule short_run_member [OF run short k i])
  qed
next
  have "length (filter (\<lambda>u. allHiddenChars [u] \<noteq> None) (take n (drop s tx)))
          \<le> length (take n (drop s tx))"
    by (rule length_filter_le)
  then show "length (filter (\<lambda>u. allHiddenChars [u] \<noteq> None) (take n (drop s tx))) \<le> n"
    by simp
next
  assume h: "cz 0 \<and> \<not> em 0"
  show "\<forall>k. s \<le> k \<and> k < s + n \<and> tx ! k = 0x200D \<longrightarrow>
               skipZWJ cz em tx k =
                 ((case precedingBaseScalar tx k of None \<Rightarrow> False | Some p \<Rightarrow> em p) \<and>
                  (case codePointAt tx (k + 1) of
                     None \<Rightarrow> False | Some q \<Rightarrow> q = 0xFE0F \<or> \<not> cz q))"
  proof (intro allI impI)
    fix k assume a: "s \<le> k \<and> k < s + n \<and> tx ! k = 0x200D"
    then have kl: "k < length tx" using maximalRun_members [OF run, of k] by simp
    have nl: "\<not> lowSurrogate (tx ! k)" using a by (simp add: lowSurrogate_def)
    have cz0: "cz 0" and em0: "\<not> em 0" using h by simp_all
    show "skipZWJ cz em tx k =
                 ((case precedingBaseScalar tx k of None \<Rightarrow> False | Some p \<Rightarrow> em p) \<and>
                  (case codePointAt tx (k + 1) of
                     None \<Rightarrow> False | Some q \<Rightarrow> q = 0xFE0F \<or> \<not> cz q))"
      by (rule skipZWJ_spec [where cz = cz and em = em, OF cz0 em0 kl nl])
  qed
qed

theorem run_absorption_witness:
  "(let tx = [0x200B, 0x200C, 0x200D, 0xFEFF, 0x2062, 0x2064, 0x200B, 0x200B, 0x41,
              0x200C, 0x2062, 0x200B, 0x31, 0x200D, 0x41, 0x200D, 0x20] :: jsstring;
        fs = detectHiddenCharacters sampleControlOrSeparator sampleEmoji tx
    in map (\<lambda>f. (index f, category f)) fs =
         [(0, ''BinaryEncodingPattern''), (9, ''Zero-Width''), (11, ''Zero-Width''),
          (15, ''Zero-Width'')] \<and>
       maximalRun tx 0 8 \<and> MIN_PATTERN_LENGTH \<le> 8 \<and>
       (\<exists>f. filter (\<lambda>f. 0 \<le> index f \<and> index f < 0 + 8) fs = [f] \<and>
            category f = ''BinaryEncodingPattern'' \<and> index f = 0 \<and> endIndex f = Some (int (0 + 8) - 1)) \<and>
       maximalRun tx 9 3 \<and> 3 < MIN_PATTERN_LENGTH \<and>
       length (filter (\<lambda>f. 9 \<le> index f \<and> index f < 9 + 3) fs)
         \<le> length (filter (\<lambda>u. allHiddenChars [u] \<noteq> None) (take 3 (drop 9 tx))) \<and>
       (\<exists>f. filter (\<lambda>f. index f = 9) fs = [f] \<and> codePoint f = 0x200C \<and>
            category f = ''Zero-Width'') \<and>
       maximalRun tx 13 1 \<and> 1 < MIN_PATTERN_LENGTH \<and>
       skipZWJ sampleControlOrSeparator sampleEmoji tx 13 \<and>
       filter (\<lambda>f. index f = 13) fs = [] \<and>
       maximalRun tx 15 1 \<and> \<not> skipZWJ sampleControlOrSeparator sampleEmoji tx 15 \<and>
       (\<exists>f. filter (\<lambda>f. index f = 15) fs = [f] \<and> codePoint f = 0x200D \<and>
            category f = ''Zero-Width''))"
proof -
  let ?tx = "[0x200B, 0x200C, 0x200D, 0xFEFF, 0x2062, 0x2064, 0x200B, 0x200B, 0x41,
              0x200C, 0x2062, 0x200B, 0x31, 0x200D, 0x41, 0x200D, 0x20] :: jsstring"
  let ?fs = "detectHiddenCharacters sampleControlOrSeparator sampleEmoji ?tx"
  have r1: "maximalRun ?tx 0 8" and r2: "maximalRun ?tx 9 3"
    and r3: "maximalRun ?tx 13 1" and r4: "maximalRun ?tx 15 1"
    by (simp_all add: maximalRun_def inAlphabet_iff)
  have m: "MIN_PATTERN_LENGTH \<le> 8" "3 < MIN_PATTERN_LENGTH" "1 < MIN_PATTERN_LENGTH"
    by (simp_all add: MIN_PATTERN_LENGTH_def)
  have fs: "map (\<lambda>f. (index f, category f)) ?fs =
         [(0, ''BinaryEncodingPattern''), (9, ''Zero-Width''), (11, ''Zero-Width''),
          (15, ''Zero-Width'')]"
    by (simp add: scan_eval heuristic_eval ZERO_WIDTH_CATEGORY_def)
  have reg: "allHiddenChars [?tx ! 9] \<noteq> None" "allHiddenChars [?tx ! 13] \<noteq> None"
    "allHiddenChars [?tx ! 15] \<noteq> None"
    by (simp_all add: allHiddenChars_unit zeroWidthChars_def bidiControlChars_def)
  have sk: "skipZWJ sampleControlOrSeparator sampleEmoji ?tx 13"
    "\<not> skipZWJ sampleControlOrSeparator sampleEmoji ?tx 15"
    by (simp_all add: heuristic_eval codePointAt_def Let_def)
  have u: "?tx ! 9 \<noteq> 0x200D" "?tx ! 13 = 0x200D" "?tx ! 15 = 0x200D"
    "int (unat (?tx ! 9)) = 0x200C" "int (unat (?tx ! 15)) = 0x200D"
    by simp_all
  note a = run_absorption [OF r1, of sampleControlOrSeparator sampleEmoji,
      THEN conjunct1, THEN mp, OF m(1)]
  note b = run_absorption [OF r2, of sampleControlOrSeparator sampleEmoji,
      THEN conjunct2, THEN conjunct1, THEN mp, OF m(2)]
  note c = run_absorption [OF r3, of sampleControlOrSeparator sampleEmoji,
      THEN conjunct2, THEN conjunct1, THEN mp, OF m(3)]
  note d = run_absorption [OF r4, of sampleControlOrSeparator sampleEmoji,
      THEN conjunct2, THEN conjunct1, THEN mp, OF m(3)]
  note 2 = b [THEN conjunct2, THEN conjunct1]
  have p: "9 \<le> (9::nat) \<and> (9::nat) < 9 + 3 \<and> allHiddenChars [?tx ! 9] \<noteq> None"
    "13 \<le> (13::nat) \<and> (13::nat) < 13 + 1 \<and> allHiddenChars [?tx ! 13] \<noteq> None"
    "15 \<le> (15::nat) \<and> (15::nat) < 15 + 1 \<and> allHiddenChars [?tx ! 15] \<noteq> None"
    using reg by simp_all
  note b' = b [THEN conjunct2, THEN conjunct2, THEN conjunct2, THEN spec, THEN mp, OF p(1)]
  note c' = c [THEN conjunct2, THEN conjunct2, THEN conjunct2, THEN spec, THEN mp, OF p(2)]
  note d' = d [THEN conjunct2, THEN conjunct2, THEN conjunct2, THEN spec, THEN mp, OF p(3)]
  have n9: "\<not> (?tx ! 9 = 0x200D \<and> skipZWJ sampleControlOrSeparator sampleEmoji ?tx 9)"
    using u(1) by blast
  have y13: "?tx ! 13 = 0x200D \<and> skipZWJ sampleControlOrSeparator sampleEmoji ?tx 13"
    using u(2) sk(1) by blast
  have n15: "\<not> (?tx ! 15 = 0x200D \<and> skipZWJ sampleControlOrSeparator sampleEmoji ?tx 15)"
    using sk(2) by blast
  have 3: "\<exists>f. filter (\<lambda>f. index f = 9) ?fs = [f] \<and> codePoint f = 0x200C \<and>
            category f = ''Zero-Width''"
    using b' [unfolded if_not_P [OF n9]] u(4) by auto
  have 4: "filter (\<lambda>f. index f = 13) ?fs = []"
    using c' [unfolded if_P [OF y13]] .
  have 5: "\<exists>f. filter (\<lambda>f. index f = 15) ?fs = [f] \<and> codePoint f = 0x200D \<and>
            category f = ''Zero-Width''"
    using d' [unfolded if_not_P [OF n15]] u(5) by auto
  show ?thesis
    unfolding Let_def
    by (intro conjI fs r1 r2 r3 r4 m sk a 2 3 4 5)
qed

theorem run_absorption_counterexample:
  "(let tx = [0x31, 0x200D, 0x41] :: jsstring;
        fs = detectHiddenCharacters sampleControlOrSeparator sampleEmoji tx
    in maximalRun tx 1 1 \<and> 1 < MIN_PATTERN_LENGTH \<and>
       length (filter (\<lambda>u. allHiddenChars [u] \<noteq> None) (take 1 (drop 1 tx))) = 1 \<and>
       length (filter (\<lambda>f. 1 \<le> index f \<and> index f < 1 + 1) fs) = 0 \<and>
       fs = [])"
proof -
  let ?tx = "[0x31, 0x200D, 0x41] :: jsstring"
  have fs: "detectHiddenCharacters sampleControlOrSeparator sampleEmoji ?tx = []"
    by (simp add: scan_eval heuristic_eval)
  have r: "maximalRun ?tx 1 1" by (simp add: maximalRun_def inAlphabet_iff)
  have m: "1 < MIN_PATTERN_LENGTH" by (simp add: MIN_PATTERN_LENGTH_def)
  have g: "length (filter (\<lambda>u. allHiddenChars [u] \<noteq> None) (take 1 (drop 1 ?tx))) = 1"
    by (simp add: allHiddenChars_unit zeroWidthChars_def bidiControlChars_def)
  have e: "length (filter (\<lambda>f. 1 \<le> index f \<and> index f < 1 + 1)
             (detectHiddenCharacters sampleControlOrSeparator sampleEmoji ?tx)) = 0"
    unfolding fs by simp
  show ?thesis unfolding Let_def by (intro conjI r m g e fs)
qed

text \<open>
  C2. The specification lets a run continue across a newline that stands between alphabet
  code units. In the source the newline is not a member of \<open>BINARY_ENCODING_CHARS\<close>, so
  the inner loop breaks at it and the newline bookkeeping inside its branch is never
  reached: four zero-width spaces, a newline and four more zero-width spaces give a run of
  length 4 and eight single Zero-Width findings on lines 1 and 2, none of them a pattern
  finding. (By \<open>pattern_finding_single_line\<close>, a pattern finding always ends on the line
  on which it starts.)
\<close>

theorem newline_terminates_run:
  "[0x0A] \<notin> set BINARY_ENCODING_CHARS \<and>
   patternLength (patternLoop [0x200B, 0x200B, 0x200B, 0x200B, 0x0A, 0x200B, 0x200B, 0x200B, 0x200B]
      (initialPattern 0 1 0)) = 4 \<and>
   (let fs = detectHiddenCharacters cz em
               [0x200B, 0x200B, 0x200B, 0x200B, 0x0A, 0x200B, 0x200B, 0x200B, 0x200B]
    in map index fs = [0, 1, 2, 3, 5, 6, 7, 8] \<and>
       map category fs = replicate 8 ZERO_WIDTH_CATEGORY \<and>
       map line fs = [1, 1, 1, 1, 2, 2, 2, 2] \<and>
       map endLine fs = replicate 8 None)"
proof -
  let ?tx = "[0x200B, 0x200B, 0x200B, 0x200B, 0x0A, 0x200B, 0x200B, 0x200B, 0x200B] :: jsstring"
  have a: "[0x0A] \<notin> set BINARY_ENCODING_CHARS" by (simp add: BINARY_ENCODING_CHARS_def)
  have r: "runLength ?tx 0 = 4" by (simp add: runLength_eval inAlphabet_iff)
  have b: "patternLength (patternLoop ?tx (initialPattern 0 1 0)) = 4"
    unfolding patternLoop_initial r by (simp add: runPattern_def r)
  have c: "map (\<lambda>f. (index f, category f, line f, endLine f)) (detectHiddenCharacters cz em ?tx) =
     [(0, ZERO_WIDTH_CATEGORY, 1, None), (1, ZERO_WIDTH_CATEGORY, 1, None),
      (2, ZERO_WIDTH_CATEGORY, 1, None), (3, ZERO_WIDTH_CATEGORY, 1, None),
      (5, ZERO_WIDTH_CATEGORY, 2, None), (6, ZERO_WIDTH_CATEGORY, 2, None),
      (7, ZERO_WIDTH_CATEGORY, 2, None), (8, ZERO_WIDTH_CATEGORY, 2, None)]"
    by (simp add: scan_eval)
  have "map index (detectHiddenCharacters cz em ?tx) =
          map fst (map (\<lambda>f. (index f, category f, line f, endLine f)) (detectHiddenCharacters cz em ?tx))"
       "map category (detectHiddenCharacters cz em ?tx) =
          map (fst \<circ> snd) (map (\<lambda>f. (index f, category f, line f, endLine f)) (detectHiddenCharacters cz em ?tx))"
       "map line (detectHiddenCharacters cz em ?tx) =
          map (fst \<circ> snd \<circ> snd) (map (\<lambda>f. (index f, category f, line f, endLine f)) (detectHiddenCharacters cz em ?tx))"
       "map endLine (detectHiddenCharacters cz em ?tx) =
          map (snd \<circ> snd \<circ> snd) (map (\<lambda>f. (index f, category f, line f, endLine f)) (detectHiddenCharacters cz em ?tx))"
    by (simp_all add: comp_def)
  then show ?thesis unfolding c Let_def using a b by (simp add: numeral_eq_Suc)
qed

text \<open>
  C3. The specification lists the line separator (U+2028), the paragraph separator (U+2029)
  and the Mongolian vowel separator (U+180E) as members of the Zero-Width category. The set
  \<open>zeroWidthChars\<close> of \<^verbatim>\<open>hiddenCharacters.ts\<close> has four members and none of these: the
  lookup of each of the three is undefined, and a text made of the three characters yields
  no finding.
\<close>

theorem separators_not_in_registry:
  "allHiddenChars [0x2028] = None \<and> allHiddenChars [0x2029] = None \<and>
   allHiddenChars [0x180E] = None \<and>
   [0x2028] \<notin> set zeroWidthChars \<and> [0x2029] \<notin> set zeroWidthChars \<and>
   [0x180E] \<notin> set zeroWidthChars \<and>
   detectHiddenCharacters cz em [0x2028, 0x2029, 0x180E] = []"
  by (simp add: scan_eval)

text \<open>
  C4. A VS16 (U+FE0F) is never part of a pattern run, so it always reaches the
  single-character classification. With a preceding base scalar value \<open>p\<close> (one VS16
  directly before it skipped, a surrogate pair read as one scalar value): if \<open>p\<close> is a
  control or separator character, the scan has exactly one finding at the index of the
  VS16, with display form \<open>U+FE0F\<close>, code point 0xFE0F, category \<open>Variation Selector\<close>
  and no end fields; otherwise it has none. The property test is a parameter; U+0000 is
  assumed to be a control character, as it is in Unicode.
\<close>

theorem vs16_suppression:
  assumes cz0: "cz 0" and k: "k < length tx" and vs: "tx ! k = 0xFE0F"
    and p: "precedingBaseScalar tx k = Some p"
  shows "(cz p \<longrightarrow>
            (\<exists>f. filter (\<lambda>f. index f = k) (detectHiddenCharacters cz em tx) = [f] \<and>
                 character f = ''U+FE0F'' \<and> codePoint f = 0xFE0F \<and> index f = k \<and>
                 category f = ''Variation Selector'' \<and> message f = VARIATION_SELECTOR_MESSAGE \<and>
                 endIndex f = None \<and> endLine f = None \<and> endColumn f = None)) \<and>
         (\<not> cz p \<longrightarrow> filter (\<lambda>f. index f = k) (detectHiddenCharacters cz em tx) = [])"
proof -
  have na: "\<not> inAlphabet (tx ! k)" using vs by (simp add: inAlphabet_iff)
  have nl: "\<not> lowSurrogate (tx ! k)" using vs by (simp add: lowSurrogate_def)
  have np: "\<not> isPair tx k" using vs by (simp add: isPair_def)
  have r0: "runLength tx k < MIN_PATTERN_LENGTH"
    using na k by (simp add: runLength_step MIN_PATTERN_LENGTH_def)
  have reg: "allHiddenChars [tx ! k] = Some (VARIATION_SELECTOR_CATEGORY, VARIATION_SELECTOR_MESSAGE)"
    using vs by (simp add: allHiddenChars_unit)
  have u: "unat (tx ! k) = 0xFE0F" using vs by simp
  have sup: "suppressed cz em tx k 0xFE0F = (\<not> cz p)"
    using skipVS16_spec [where cz = cz, OF cz0 k nl] p by (simp add: suppressed_def)
  obtain ln c where
    w: "filter (\<lambda>f. index f = k) (detectHiddenCharacters cz em tx) =
       (if suppressed cz em tx k 0xFE0F then []
        else [charFinding 0xFE0F k ln (int k - c)
                (VARIATION_SELECTOR_CATEGORY, VARIATION_SELECTOR_MESSAGE)])"
    using findings_at_single [OF k reach_not_alphabet [OF k na nl] r0 np, where cz = cz and em = em]
    unfolding reg u by auto
  let ?f = "charFinding 0xFE0F k ln (int k - c)
              (VARIATION_SELECTOR_CATEGORY, VARIATION_SELECTOR_MESSAGE)"
  have fields: "character ?f = ''U+FE0F'' \<and> codePoint ?f = 0xFE0F \<and> index ?f = k \<and>
      category ?f = ''Variation Selector'' \<and> message ?f = VARIATION_SELECTOR_MESSAGE \<and>
      endIndex ?f = None \<and> endLine ?f = None \<and> endColumn ?f = None"
    by (simp add: vs16_finding_character VARIATION_SELECTOR_CATEGORY_def)
  show ?thesis
  proof (intro conjI impI)
    assume "cz p"
    then have "filter (\<lambda>f. index f = k) (detectHiddenCharacters cz em tx) = [?f]"
      using w sup by simp
    then show "\<exists>f. filter (\<lambda>f. index f = k) (detectHiddenCharacters cz em tx) = [f] \<and>
                 character f = ''U+FE0F'' \<and> codePoint f = 0xFE0F \<and> index f = k \<and>
                 category f = ''Variation Selector'' \<and> message f = VARIATION_SELECTOR_MESSAGE \<and>
                 endIndex f = None \<and> endLine f = None \<and> endColumn f = None"
      using fields by (intro exI [of _ ?f] conjI) blast+
  next
    assume "\<not> cz p"
    then show "filter (\<lambda>f. index f = k) (detectHiddenCharacters cz em tx) = []"
      using w sup by simp
  qed
qed

theorem vs16_suppression_witness:
  "(let tx = [0x2764, 0xFE0F, 0x20, 0xFE0F] :: jsstring;
        fs = detectHiddenCharacters sampleControlOrSeparator sampleEmoji tx
    in map (\<lambda>f. (character f, codePoint f, index f, category f)) fs =
         [(''U+FE0F'', 0xFE0F, 3, ''Variation Selector'')] \<and>
       sampleControlOrSeparator 0 \<and>
       precedingBaseScalar tx 1 = Some 0x2764 \<and> \<not> sampleControlOrSeparator 0x2764 \<and>
       filter (\<lambda>f. index f = 1) fs = [] \<and>
       precedingBaseScalar tx 3 = Some 0x20 \<and> sampleControlOrSeparator 0x20 \<and>
       (\<exists>f. filter (\<lambda>f. index f = 3) fs = [f] \<and>
            character f = ''U+FE0F'' \<and> codePoint f = 0xFE0F \<and> index f = 3 \<and>
            category f = ''Variation Selector'' \<and> message f = VARIATION_SELECTOR_MESSAGE \<and>
            endIndex f = None \<and> endLine f = None \<and> endColumn f = None))"
proof -
  let ?tx = "[0x2764, 0xFE0F, 0x20, 0xFE0F] :: jsstring"
  have fs: "map (\<lambda>f. (character f, codePoint f, index f, category f))
              (detectHiddenCharacters sampleControlOrSeparator sampleEmoji ?tx) =
         [(''U+FE0F'', 0xFE0F, 3, ''Variation Selector'')]"
    by (simp add: scan_eval heuristic_eval finding_eval VARIATION_SELECTOR_CATEGORY_def)
  have z: "sampleControlOrSeparator 0" "\<not> sampleControlOrSeparator 0x2764"
    "sampleControlOrSeparator 0x20"
    by (simp_all add: sampleControlOrSeparator_def)
  have p1: "precedingBaseScalar ?tx 1 = Some 0x2764"
    and p3: "precedingBaseScalar ?tx 3 = Some 0x20"
    by (simp_all add: precedingBaseScalar_def scalarBefore_def lowSurrogate_def)
  have k: "1 < length ?tx" "3 < length ?tx" "?tx ! 1 = 0xFE0F" "?tx ! 3 = 0xFE0F" by simp_all
  note a = vs16_suppression [where cz = sampleControlOrSeparator and em = sampleEmoji,
      OF z(1) k(1) k(3) p1, THEN conjunct2, THEN mp, OF z(2)]
  note b = vs16_suppression [where cz = sampleControlOrSeparator and em = sampleEmoji,
      OF z(1) k(2) k(4) p3, THEN conjunct1, THEN mp, OF z(3)]
  show ?thesis
    unfolding Let_def by (intro conjI fs z p1 p3 a b)
qed

text \<open>
  C5. A zero-width joiner (U+200D) inside a maximal alphabet run shorter than 8 reaches
  the single-character classification. Its finding is suppressed exactly when (a) the
  preceding base scalar value has the Emoji or Emoji_Modifier_Base property and (b) the
  scalar value directly after the joiner is VS16 or is not a control or separator
  character; otherwise the scan has exactly one finding at its index, with display form
  \<open>U+200D\<close>, code point 0x200D, category \<open>Zero-Width\<close> and no end fields. A joiner next to
  plain text is therefore not always reported: digits have the Emoji property and letters
  are no control or separator characters, so the scans of \<^verbatim>\<open>1\u200DA\<close> and of an emoji
  followed by a joiner and \<open>A\<close> are empty (the counterexample). The two property tests are
  parameters; U+0000 is assumed to be a control character without the Emoji property, as
  it is in Unicode.
\<close>

theorem zwj_suppression:
  assumes cz0: "cz 0" and em0: "\<not> em 0"
    and run: "maximalRun tx s n" and short: "n < MIN_PATTERN_LENGTH"
    and k: "s \<le> k" "k < s + n" and zwj: "tx ! k = 0x200D"
  shows "(if (case precedingBaseScalar tx k of None \<Rightarrow> False | Some p \<Rightarrow> em p) \<and>
             (case codePointAt tx (k + 1) of None \<Rightarrow> False | Some q \<Rightarrow> q = 0xFE0F \<or> \<not> cz q)
          then filter (\<lambda>f. index f = k) (detectHiddenCharacters cz em tx) = []
          else (\<exists>f. filter (\<lambda>f. index f = k) (detectHiddenCharacters cz em tx) = [f] \<and>
                  character f = ''U+200D'' \<and> codePoint f = 0x200D \<and> index f = k \<and>
                  category f = ''Zero-Width'' \<and> message f = ZERO_WIDTH_MESSAGE \<and>
                  endIndex f = None \<and> endLine f = None \<and> endColumn f = None))"
proof -
  have kl: "k < length tx" and al: "inAlphabet (tx ! k)"
    using maximalRun_members [OF run k] by simp_all
  have nl: "\<not> lowSurrogate (tx ! k)" using zwj by (simp add: lowSurrogate_def)
  have rl: "runLength tx k < MIN_PATTERN_LENGTH"
    using runLength_maximal [OF run, of k] k short by simp
  have reg: "allHiddenChars [tx ! k] = Some (ZERO_WIDTH_CATEGORY, ZERO_WIDTH_MESSAGE)"
    using zwj by (simp add: allHiddenChars_unit zeroWidthChars_def bidiControlChars_def)
  have u: "unat (tx ! k) = 0x200D" using zwj by simp
  have sup: "suppressed cz em tx k 0x200D =
      ((case precedingBaseScalar tx k of None \<Rightarrow> False | Some p \<Rightarrow> em p) \<and>
       (case codePointAt tx (k + 1) of None \<Rightarrow> False | Some q \<Rightarrow> q = 0xFE0F \<or> \<not> cz q))"
    using skipZWJ_spec [where cz = cz and em = em, OF cz0 em0 kl nl] by (simp add: suppressed_def)
  obtain ln c where
    w: "filter (\<lambda>f. index f = k) (detectHiddenCharacters cz em tx) =
       (if suppressed cz em tx k 0x200D then []
        else [charFinding 0x200D k ln (int k - c) (ZERO_WIDTH_CATEGORY, ZERO_WIDTH_MESSAGE)])"
    using findings_at_single [OF kl reach_short_run [OF run short k] rl inAlphabet_not_pair [OF al],
        where cz = cz and em = em]
    unfolding reg u by auto
  let ?f = "charFinding 0x200D k ln (int k - c) (ZERO_WIDTH_CATEGORY, ZERO_WIDTH_MESSAGE)"
  have fields: "character ?f = ''U+200D'' \<and> codePoint ?f = 0x200D \<and> index ?f = k \<and>
      category ?f = ''Zero-Width'' \<and> message ?f = ZERO_WIDTH_MESSAGE \<and>
      endIndex ?f = None \<and> endLine ?f = None \<and> endColumn ?f = None"
    by (simp add: zwj_finding_character ZERO_WIDTH_CATEGORY_def)
  show ?thesis
  proof (cases "(case precedingBaseScalar tx k of None \<Rightarrow> False | Some p \<Rightarrow> em p) \<and>
             (case codePointAt tx (k + 1) of None \<Rightarrow> False | Some q \<Rightarrow> q = 0xFE0F \<or> \<not> cz q)")
    case True
    then have "filter (\<lambda>f. index f = k) (detectHiddenCharacters cz em tx) = []"
      using w sup by simp
    then show ?thesis by (subst if_P [OF True])
  next
    case False
    then have "filter (\<lambda>f. index f = k) (detectHiddenCharacters cz em tx) = [?f]"
      using w sup by simp
    then have "\<exists>f. filter (\<lambda>f. index f = k) (detectHiddenCharacters cz em tx) = [f] \<and>
                  character f = ''U+200D'' \<and> codePoint f = 0x200D \<and> index f = k \<and>
                  category f = ''Zero-Width'' \<and> message f = ZERO_WIDTH_MESSAGE \<and>
                  endIndex f = None \<and> endLine f = None \<and> endColumn f = None"
      using fields by (intro exI [of _ ?f] conjI) blast+
    then show ?thesis by (subst if_not_P [OF False])
  qed
qed

theorem zwj_suppression_witness:
  "(let tx = [0xD83D, 0xDC69, 0x200D, 0xD83D, 0xDC69, 0x20, 0x41, 0x200D, 0x42] :: jsstring;
        fs = detectHiddenCharacters sampleControlOrSeparator sampleEmoji tx
    in map (\<lambda>f. (character f, codePoint f, index f, category f)) fs =
         [(''U+200D'', 0x200D, 7, ''Zero-Width'')] \<and>
       sampleControlOrSeparator 0 \<and> \<not> sampleEmoji 0 \<and>
       maximalRun tx 2 1 \<and> maximalRun tx 7 1 \<and> 1 < MIN_PATTERN_LENGTH \<and>
       precedingBaseScalar tx 2 = Some 0x1F469 \<and> sampleEmoji 0x1F469 \<and>
       codePointAt tx (2 + 1) = Some 0x1F469 \<and> \<not> sampleControlOrSeparator 0x1F469 \<and>
       filter (\<lambda>f. index f = 2) fs = [] \<and>
       precedingBaseScalar tx 7 = Some 0x41 \<and> \<not> sampleEmoji 0x41 \<and>
       (\<exists>f. filter (\<lambda>f. index f = 7) fs = [f] \<and>
            character f = ''U+200D'' \<and> codePoint f = 0x200D \<and> index f = 7 \<and>
            category f = ''Zero-Width'' \<and> message f = ZERO_WIDTH_MESSAGE \<and>
            endIndex f = None \<and> endLine f = None \<and> endColumn f = None))"
proof -
  let ?tx = "[0xD83D, 0xDC69, 0x200D, 0xD83D, 0xDC69, 0x20, 0x41, 0x200D, 0x42] :: jsstring"
  have fs: "map (\<lambda>f. (character f, codePoint f, index f, category f))
              (detectHiddenCharacters sampleControlOrSeparator sampleEmoji ?tx) =
         [(''U+200D'', 0x200D, 7, ''Zero-Width'')]"
    by (simp add: scan_eval heuristic_eval finding_eval allHiddenChars_supp ZERO_WIDTH_CATEGORY_def)
  have z: "sampleControlOrSeparator 0" "\<not> sampleEmoji 0" "sampleEmoji 0x1F469"
    "\<not> sampleControlOrSeparator 0x1F469" "\<not> sampleEmoji 0x41"
    by (simp_all add: sampleControlOrSeparator_def sampleEmoji_def)
  have r: "maximalRun ?tx 2 1" "maximalRun ?tx 7 1"
    by (simp_all add: maximalRun_def inAlphabet_iff)
  have m: "1 < MIN_PATTERN_LENGTH" by (simp add: MIN_PATTERN_LENGTH_def)
  have p2: "precedingBaseScalar ?tx 2 = Some 0x1F469"
    and p7: "precedingBaseScalar ?tx 7 = Some 0x41"
    by (simp_all add: precedingBaseScalar_def scalarBefore_def lowSurrogate_def)
  have n2: "codePointAt ?tx (2 + 1) = Some 0x1F469" by (simp add: codePointAt_def)
  have k: "?tx ! 2 = 0x200D" "?tx ! 7 = 0x200D" "(2::nat) \<le> 2" "(2::nat) < 2 + 1"
    "(7::nat) \<le> 7" "(7::nat) < 7 + 1"
    by simp_all
  have c2: "(case precedingBaseScalar ?tx 2 of None \<Rightarrow> False | Some p \<Rightarrow> sampleEmoji p) \<and>
            (case codePointAt ?tx (2 + 1) of None \<Rightarrow> False
             | Some q \<Rightarrow> q = 0xFE0F \<or> \<not> sampleControlOrSeparator q)"
    unfolding p2 n2 using z by simp
  have c7: "\<not> ((case precedingBaseScalar ?tx 7 of None \<Rightarrow> False | Some p \<Rightarrow> sampleEmoji p) \<and>
            (case codePointAt ?tx (7 + 1) of None \<Rightarrow> False
             | Some q \<Rightarrow> q = 0xFE0F \<or> \<not> sampleControlOrSeparator q))"
    unfolding p7 using z by simp
  note a = zwj_suppression [where cz = sampleControlOrSeparator and em = sampleEmoji,
      OF z(1,2) r(1) m k(3,4,1), unfolded if_P [OF c2]]
  note b = zwj_suppression [where cz = sampleControlOrSeparator and em = sampleEmoji,
      OF z(1,2) r(2) m k(5,6,2), unfolded if_not_P [OF c7]]
  show ?thesis
    unfolding Let_def by (intro conjI fs z r m p2 p7 n2 a b)
qed

theorem zwj_suppression_counterexample:
  "(let tx = [0x31, 0x200D, 0x41] :: jsstring;
        ty = [0xD83D, 0xDC69, 0x200D, 0x41] :: jsstring
    in tx ! 1 = 0x200D \<and> maximalRun tx 1 1 \<and>
       \<not> sampleControlOrSeparator 0x31 \<and> \<not> sampleControlOrSeparator 0x41 \<and>
       detectHiddenCharacters sampleControlOrSeparator sampleEmoji tx = [] \<and>
       ty ! 2 = 0x200D \<and> maximalRun ty 2 1 \<and>
       detectHiddenCharacters sampleControlOrSeparator sampleEmoji ty = [])"
proof -
  let ?tx = "[0x31, 0x200D, 0x41] :: jsstring"
  let ?ty = "[0xD83D, 0xDC69, 0x200D, 0x41] :: jsstring"
  have x: "detectHiddenCharacters sampleControlOrSeparator sampleEmoji ?tx = []"
    by (simp add: scan_eval heuristic_eval)
  have y: "detectHiddenCharacters sampleControlOrSeparator sampleEmoji ?ty = []"
    by (simp add: scan_eval heuristic_eval allHiddenChars_supp)
  have r: "maximalRun ?tx 1 1" "maximalRun ?ty 2 1"
    by (simp_all add: maximalRun_def inAlphabet_iff)
  have z: "\<not> sampleControlOrSeparator 0x31" "\<not> sampleControlOrSeparator 0x41"
    by (simp_all add: sampleControlOrSeparator_def)
  have u: "?tx ! 1 = 0x200D" "?ty ! 2 = 0x200D" by simp_all
  show ?thesis unfolding Let_def by (intro conjI x y r z u)
qed

text \<open>
  C6. A supplementary-plane member of the category table whose first code unit is at
  index \<open>k\<close> is reported once: the finding carries the full scalar value and the index
  \<open>k\<close>, the iteration moves the cursor to \<open>k + 2\<close>, and no finding has the index of the
  low surrogate.
\<close>

theorem surrogate_pair_finding:
  assumes cp: "codePointAt tx k = Some cp" and big: "0xFFFF < cp"
    and reg: "allHiddenChars (fromCodePoint cp) = Some info"
  shows "cp = (unat (tx ! k) - 0xD800) * 0x400 + (unat (tx ! (k + 1)) - 0xDC00) + 0x10000 \<and>
         (\<exists>f. filter (\<lambda>f. k \<le> index f \<and> index f < k + 2) (detectHiddenCharacters cz em tx) = [f] \<and>
              codePoint f = int cp \<and> index f = k \<and> category f = fst info \<and>
              message f = snd info \<and> endIndex f = None) \<and>
         filter (\<lambda>f. index f = k + 1) (detectHiddenCharacters cz em tx) = [] \<and>
         (\<forall>ln c rs. fst (scanStep cz em tx (k, ln, c, rs)) = k + 2)"
proof -
  have pair: "isPair tx k" using codePointAt_large_iff [OF cp] big by simp
  have k: "k < length tx" using pair by (simp add: isPair_def)
  have v: "cp = (unat (tx ! k) - 0xD800) * 0x400 + (unat (tx ! (k + 1)) - 0xDC00) + 0x10000"
    using codePointAt_pair [OF pair] cp by simp
  have r0: "runLength tx k = 0"
    using inAlphabet_not_pair [of tx k] pair k by (auto simp: runLength_step)
  have nc: "nextCursor tx k = k + 2"
    using pair r0 by (simp add: nextCursor_def MIN_PATTERN_LENGTH_def)
  obtain ln c where
    w: "filter (\<lambda>f. k \<le> index f \<and> index f < k + 2) (detectHiddenCharacters cz em tx) =
          [charFinding cp k ln (int k - c) info]"
    using findings_at_pair [OF pair cp, of cz em] reg by auto
  have "filter (\<lambda>f. index f = k + 1)
          (filter (\<lambda>f. k \<le> index f \<and> index f < k + 2) (detectHiddenCharacters cz em tx)) = []"
    unfolding w by simp
  moreover have "(\<lambda>f::HiddenCharacterInfo. (k \<le> index f \<and> index f < k + 2) \<and> index f = k + 1)
                   = (\<lambda>f. index f = k + 1)"
    by auto
  ultimately have low: "filter (\<lambda>f. index f = k + 1) (detectHiddenCharacters cz em tx) = []"
    by (simp only: filter_filter)
  have "\<exists>f. filter (\<lambda>f. k \<le> index f \<and> index f < k + 2) (detectHiddenCharacters cz em tx) = [f] \<and>
              codePoint f = int cp \<and> index f = k \<and> category f = fst info \<and>
              message f = snd info \<and> endIndex f = None"
    using w by (intro exI [of _ "charFinding cp k ln (int k - c) info"]) simp
  then show ?thesis using v low k nc by (simp add: scanStep_eq)
qed

theorem surrogate_pair_finding_witness:
  "(let tx = [0x54, 0x65, 0x73, 0x74, 0x20, 0xDB40, 0xDD00, 0x20, 0x56, 0x53, 0x31, 0x37] :: jsstring;
        fs = detectHiddenCharacters sampleControlOrSeparator sampleEmoji tx
    in codePointAt tx 5 = Some 0xE0100 \<and>
       allHiddenChars (fromCodePoint 0xE0100) =
         Some (VARIATION_SELECTOR_CATEGORY, VARIATION_SELECTOR_MESSAGE) \<and>
       (\<exists>f. filter (\<lambda>f. 5 \<le> index f \<and> index f < 5 + 2) fs = [f] \<and>
            codePoint f = 0xE0100 \<and> index f = 5 \<and> category f = VARIATION_SELECTOR_CATEGORY) \<and>
       filter (\<lambda>f. index f = 5 + 1) fs = [] \<and>
       fst (scanStep sampleControlOrSeparator sampleEmoji tx (5, 1, 0, [])) = 5 + 2)"
proof -
  let ?tx = "[0x54, 0x65, 0x73, 0x74, 0x20, 0xDB40, 0xDD00, 0x20, 0x56, 0x53, 0x31, 0x37] :: jsstring"
  have cp: "codePointAt ?tx 5 = Some 0xE0100" by (simp add: codePointAt_def)
  have big: "0xFFFF < (0xE0100 :: nat)" by simp
  have reg: "allHiddenChars (fromCodePoint 0xE0100) =
         Some (VARIATION_SELECTOR_CATEGORY, VARIATION_SELECTOR_MESSAGE)"
    by (simp add: allHiddenChars_supp)
  show ?thesis
    unfolding Let_def
    using surrogate_pair_finding [OF cp big reg, of sampleControlOrSeparator sampleEmoji] cp reg
    by auto
qed

text \<open>
  C7. For every finding of a scan, the fields \<open>endIndex\<close>, \<open>endLine\<close> and
  \<open>endColumn\<close> are present exactly when the category is \<open>BinaryEncodingPattern\<close>;
  on a single-character finding they are absent.
\<close>

theorem end_fields_iff_pattern:
  assumes "f \<in> set (detectHiddenCharacters cz em tx)"
  shows "(endIndex f \<noteq> None \<longleftrightarrow> category f = ''BinaryEncodingPattern'') \<and>
         (endLine f \<noteq> None \<longleftrightarrow> category f = ''BinaryEncodingPattern'') \<and>
         (endColumn f \<noteq> None \<longleftrightarrow> category f = ''BinaryEncodingPattern'')"
proof -
  obtain ln c where e: "f \<in> set (emitted cz em tx (index f) ln c)"
    using assms findingsFrom_emitted unfolding detect_findingsFrom by blast
  from emitted_cases [OF e] consider
    (pattern) i l col ps where "f = patternFinding i l col ps"
  | (single) cp i l col info j where
      "allHiddenChars (startCharToCheck tx j cp) = Some info" "f = charFinding cp i l col info"
    by blast
  then show ?thesis
  proof cases
    case pattern
    then show ?thesis by (simp add: patternFinding_def)
  next
    case single
    note i = single(1) and f = single(2)
    have "fst info \<noteq> ''BinaryEncodingPattern''"
      using allHiddenChars_category [OF i]
      by (auto simp: ZERO_WIDTH_CATEGORY_def BIDI_CONTROL_CATEGORY_def
          DEPRECATED_TAG_CATEGORY_def VARIATION_SELECTOR_CATEGORY_def)
    then show ?thesis unfolding f by (simp add: charFinding_def)
  qed
qed

theorem end_fields_iff_pattern_witness:
  "(let fs = detectHiddenCharacters sampleControlOrSeparator sampleEmoji
        [0x41, 0x200B, 0x200B, 0x200B, 0x200B, 0x200B, 0x200B, 0x200B, 0x200B, 0x202E]
    in fs ! 0 \<in> set fs \<and> fs ! 1 \<in> set fs \<and>
       endIndex (fs ! 0) = Some 8 \<and> category (fs ! 0) = ''BinaryEncodingPattern'' \<and>
       endIndex (fs ! 1) = None \<and> category (fs ! 1) \<noteq> ''BinaryEncodingPattern'')"
proof -
  let ?tx = "[0x41, 0x200B, 0x200B, 0x200B, 0x200B, 0x200B, 0x200B, 0x200B, 0x200B, 0x202E] :: jsstring"
  let ?fs = "detectHiddenCharacters sampleControlOrSeparator sampleEmoji ?tx"
  have fs: "map (\<lambda>f. (index f, endIndex f)) ?fs = [(1, Some 8), (9, None)]"
    by (simp add: scan_eval runPattern_def)
  then have "length (map (\<lambda>f. (index f, endIndex f)) ?fs) = 2" by simp
  then have len: "length ?fs = 2" by simp
  then have 0: "?fs ! 0 \<in> set ?fs" and 1: "?fs ! 1 \<in> set ?fs" by simp_all
  have "map (\<lambda>f. (index f, endIndex f)) ?fs ! 0 = (1, Some 8)"
    "map (\<lambda>f. (index f, endIndex f)) ?fs ! 1 = (9, None)"
    by (simp_all add: fs)
  then have e: "endIndex (?fs ! 0) = Some 8" "endIndex (?fs ! 1) = None"
    using len by simp_all
  show ?thesis
    using end_fields_iff_pattern [OF 0] end_fields_iff_pattern [OF 1] e 0 1
    by (simp add: Let_def)
qed

text \<open>
  C8. For every input, the list returned by the scan is sorted by start index, strictly
  ascending.
\<close>

theorem findings_strictly_ascending:
  "sorted_wrt (<) (map index (detectHiddenCharacters cz em tx))"
  unfolding detect_findingsFrom by (rule findingsFrom_sorted)

text \<open>
  C9. The scan is total: the \<^verbatim>\<open>while\<close> loop started in the initial state (cursor 0,
  line 1, line start 0, no results) halts on every string of code units, and its result
  list is the value of \<open>detectHiddenCharacters\<close>. Every iteration moves the cursor
  strictly forward: by the run length when a pattern is reported, else by two units on a
  surrogate pair and by one unit otherwise.
\<close>

theorem scan_total:
  "(\<exists>st. while_option (\<lambda>st. fst st < length tx) (scanStep cz em tx) (0, 1, 0, []) = Some st \<and>
         length tx \<le> fst st \<and>
         snd (snd (snd st)) = detectHiddenCharacters cz em tx) \<and>
   (\<forall>i ln c rs. i < length tx \<longrightarrow>
      i < fst (scanStep cz em tx (i, ln, c, rs)) \<and>
      fst (scanStep cz em tx (i, ln, c, rs)) \<le> length tx \<and>
      fst (scanStep cz em tx (i, ln, c, rs)) =
        (if MIN_PATTERN_LENGTH \<le> runLength tx i then i + runLength tx i
         else if isPair tx i then i + 2 else i + 1))"
proof (intro conjI allI impI)
  show "\<exists>st. while_option (\<lambda>st. fst st < length tx) (scanStep cz em tx) (0, 1, 0, []) = Some st \<and>
         length tx \<le> fst st \<and> snd (snd (snd st)) = detectHiddenCharacters cz em tx"
    by (intro exI [of _ "scanLoop cz em tx (0, 1, 0, [])"])
       (simp add: while_scanLoop scanLoop_cursor detectHiddenCharacters_def)
next
  fix i ln c rs assume "i < length tx"
  then show "i < fst (scanStep cz em tx (i, ln, c, rs))"
    by (simp add: scanStep_eq nextCursor_gt)
next
  fix i ln c rs assume "i < length tx"
  then show "fst (scanStep cz em tx (i, ln, c, rs)) \<le> length tx"
    by (simp add: scanStep_eq nextCursor_le)
next
  fix i ln c rs assume "i < length tx"
  then show "fst (scanStep cz em tx (i, ln, c, rs)) =
        (if MIN_PATTERN_LENGTH \<le> runLength tx i then i + runLength tx i
         else if isPair tx i then i + 2 else i + 1)"
    by (simp add: scanStep_eq nextCursor_def)
qed

theorem scan_total_witness:
  "(\<exists>st. while_option (\<lambda>st. fst st < length [0xD83D, 0x200B :: 16 word])
            (scanStep sampleControlOrSeparator sampleEmoji [0xD83D, 0x200B]) (0, 1, 0, []) = Some st \<and>
         length [0xD83D, 0x200B :: 16 word] \<le> fst st \<and>
         snd (snd (snd st)) =
           detectHiddenCharacters sampleControlOrSeparator sampleEmoji [0xD83D, 0x200B]) \<and>
   0 < length [0xD83D, 0x200B :: 16 word] \<and>
   fst (scanStep sampleControlOrSeparator sampleEmoji [0xD83D, 0x200B] (0, 1, 0, [])) = 1"
proof -
  have r: "runLength [0xD83D, 0x200B] 0 = 0" "\<not> isPair [0xD83D, 0x200B] 0"
    by (simp_all add: runLength_def inAlphabet_iff isPair_def)
  show ?thesis
    using scan_total [of "[0xD83D, 0x200B]" sampleControlOrSeparator sampleEmoji] r
    by (simp add: MIN_PATTERN_LENGTH_def)
qed

text \<open>
  C10. U+2062 and U+2064 belong to the pattern alphabet and not to the category table.
  An occurrence of either inside a maximal run shorter than 8 gets no finding: no finding
  starts at its index, and no pattern finding spans it.
\<close>

theorem invisible_operators_unreported:
  assumes run: "maximalRun tx s n" and short: "n < MIN_PATTERN_LENGTH"
    and k: "s \<le> k" "k < s + n" and u: "tx ! k = 0x2062 \<or> tx ! k = 0x2064"
  shows "[tx ! k] \<in> set BINARY_ENCODING_CHARS \<and> allHiddenChars [tx ! k] = None \<and>
         (\<forall>f \<in> set (detectHiddenCharacters cz em tx).
            index f \<noteq> k \<and> (\<forall>e. endIndex f = Some e \<longrightarrow> \<not> (index f \<le> k \<and> int k \<le> e)))"
proof (intro conjI ballI allI impI)
  show "[tx ! k] \<in> set BINARY_ENCODING_CHARS" using u by (auto simp: BINARY_ENCODING_CHARS_def)
  show none: "allHiddenChars [tx ! k] = None"
    using u by (auto simp: allHiddenChars_unit zeroWidthChars_def bidiControlChars_def)
  have kl: "k < length tx" and al: "inAlphabet (tx ! k)"
    using maximalRun_members [OF run k] by simp_all
  fix f assume f: "f \<in> set (detectHiddenCharacters cz em tx)"
  show "index f \<noteq> k"
  proof (cases "category f = ''BinaryEncodingPattern''")
    case True
    have "0 < runLength tx (index f)"
      using pattern_finding_span [OF f True] by (simp add: MIN_PATTERN_LENGTH_def)
    then show ?thesis using pattern_not_in_short_run [OF run short f True k] by auto
  next
    case False
    from single_finding_shape [OF f False] obtain cp where
      cp: "codePointAt tx (index f) = Some cp"
      and i: "allHiddenChars (startCharToCheck tx (index f) cp) = Some (category f, message f)"
      by blast
    show ?thesis
    proof
      assume e: "index f = k"
      have "cp = unat (tx ! k)"
        using cp single_unit_lookup(1) [OF kl inAlphabet_not_pair [OF al]] e by simp
      then have "startCharToCheck tx (index f) cp = [tx ! k]"
        using single_unit_lookup(2) [OF kl inAlphabet_not_pair [OF al]] e by simp
      with i none show False by simp
    qed
  qed
  fix e assume e: "endIndex f = Some e"
  show "\<not> (index f \<le> k \<and> int k \<le> e)"
  proof (cases "category f = ''BinaryEncodingPattern''")
    case True
    have "e = int (index f + runLength tx (index f)) - 1"
      using pattern_finding_span [OF f True] e by simp
    then show ?thesis using pattern_not_in_short_run [OF run short f True k] by auto
  next
    case False
    then show ?thesis using single_finding_shape [OF f False] e by auto
  qed
qed

theorem invisible_operators_unreported_witness:
  "maximalRun [0x41, 0x200B, 0x2062, 0x2064, 0x42] 1 3 \<and> (3::nat) < MIN_PATTERN_LENGTH \<and>
   [0x41, 0x200B, 0x2062, 0x2064, 0x42 :: 16 word] ! 2 = 0x2062 \<and>
   allHiddenChars [0x2062] = None \<and>
   map index (detectHiddenCharacters sampleControlOrSeparator sampleEmoji
     [0x41, 0x200B, 0x2062, 0x2064, 0x42]) = [1] \<and>
   list_all (\<lambda>f. index f \<noteq> 2 \<and> (\<forall>e. endIndex f = Some e \<longrightarrow> \<not> (index f \<le> 2 \<and> 2 \<le> e)))
     (detectHiddenCharacters sampleControlOrSeparator sampleEmoji
        [0x41, 0x200B, 0x2062, 0x2064, 0x42])"
proof -
  let ?tx = "[0x41, 0x200B, 0x2062, 0x2064, 0x42] :: jsstring"
  have run: "maximalRun ?tx 1 3"
    by (simp add: maximalRun_def inAlphabet_iff)
  have short: "(3::nat) < MIN_PATTERN_LENGTH" by (simp add: MIN_PATTERN_LENGTH_def)
  have u: "?tx ! 2 = 0x2062 \<or> ?tx ! 2 = 0x2064" by simp
  have fs: "map index (detectHiddenCharacters sampleControlOrSeparator sampleEmoji ?tx) = [1]"
    by (simp add: scan_eval)
  show ?thesis
    using invisible_operators_unreported [OF run short _ _ u, of sampleControlOrSeparator sampleEmoji]
      run short fs
    by (simp add: list_all_iff)
qed

end
